theory Spec2Isabelle
  imports Main "HOL-Library.Word"
begin

unbundle bit_operations_syntax

section \<open>Data\<close>

text \<open>
  Go's \<open>string\<close> and \<open>[]byte\<close> are byte sequences.  Text (wire lines, subjects,
  message ids) is a \<open>string\<close>, a list of 8-bit characters; the argument and the result
  of the yEnc decoder are lists of \<open>byte\<close>, as in the source.
\<close>

type_synonym byte = "8 word"

text \<open>
  The source builds its errors with \<open>errors.New\<close> and \<open>fmt.Errorf\<close>; each distinct
  message is one constructor here:
  \<^item> \<open>MalformedEscape\<close>: "unterminated escape in yEnc line";
  \<^item> \<open>RangeOutOfBounds start end size\<close>: "invalid range %d-%d for file size %d";
  \<^item> \<open>WriteError\<close>, \<open>ReadError\<close>: a transport write or read failed (a read fails
    at the end of the input and when the read deadline passes with nothing to read);
  \<^item> \<open>ErrClosed\<close>: "use of closed network connection";
  \<^item> \<open>AuthRejected line\<close>: "auth failed: %s";
  \<^item> \<open>AuthProtocolError line\<close>: "auth unexpected response: %s";
  \<^item> \<open>FetchBody id e\<close>: "fetch body %s: %w".
\<close>

datatype error =
    MalformedEscape
  | RangeOutOfBounds int int int
  | WriteError
  | ReadError
  | ErrClosed
  | AuthRejected string
  | AuthProtocolError string
  | FetchBody string error

section \<open>Integers and strings of the Go runtime\<close>

text \<open>
  \<open>int64\<close> (and \<open>int\<close>, 64 bits wide on the supported platforms) is modelled by
  \<open>int\<close>; every arithmetic operation of the source on \<open>int64\<close> is followed by \<open>i64\<close>,
  the two's-complement wrap-around of Go.
\<close>

definition i64 :: "int \<Rightarrow> int" where
  "i64 x = (x + 2 ^ 63) mod 2 ^ 64 - 2 ^ 63"

text \<open>\<open>strings.HasPrefix\<close>.\<close>

definition HasPrefix :: "string \<Rightarrow> string \<Rightarrow> bool" where
  "HasPrefix s pre = (take (length pre) s = pre)"

text \<open>The class \<open>\d\<close> of Go's regular expressions and \<open>strconv\<close>: the ASCII digits.\<close>

definition is_digit :: "char \<Rightarrow> bool" where
  "is_digit c = (48 \<le> (of_char c :: nat) \<and> (of_char c :: nat) \<le> 57)"

definition digits_value :: "int \<Rightarrow> string \<Rightarrow> int" where
  "digits_value base ds = foldl (\<lambda>n c. n * base + (of_char c - 48)) 0 ds"

text \<open>
  \<open>utf8.DecodeRuneInString\<close>, reduced to the number of bytes of the first rune: an ASCII
  byte, and a byte that does not start a well-formed UTF-8 sequence, is a rune of width 1.
\<close>

definition rune_width :: "string \<Rightarrow> nat" where
  "rune_width s =
     (case map of_char s of
        [] \<Rightarrow> 0
      | s0 # t \<Rightarrow>
          if s0 < (0xC2 :: nat) \<or> 0xF4 < s0 then 1
          else
            let sz = (if s0 < 0xE0 then 2 else if s0 < 0xF0 then 3 else 4 :: nat);
                lo = (if s0 = 0xE0 then 0xA0 else if s0 = 0xF0 then 0x90 else 0x80);
                hi = (if s0 = 0xED then 0x9F else if s0 = 0xF4 then 0x8F else 0xBF)
            in if length s < sz then 1
               else if t ! 0 < lo \<or> hi < t ! 0 then 1
               else if sz \<le> 2 then 2
               else if t ! 1 < 0x80 \<or> 0xBF < t ! 1 then 1
               else if sz \<le> 3 then 3
               else if t ! 2 < 0x80 \<or> 0xBF < t ! 2 then 1
               else 4)"

text \<open>
  \<open>strings.TrimSpace\<close> removes the leading and trailing runes with Unicode's White_Space
  property: the ASCII characters 9..13 and 32, and the UTF-8 encodings of U+0085, U+00A0,
  U+1680, U+2000..U+200A, U+2028, U+2029, U+202F, U+205F and U+3000.
\<close>

definition is_space_seq :: "nat list \<Rightarrow> bool" where
  "is_space_seq bs =
     (case bs of
        [a] \<Rightarrow> (9 \<le> a \<and> a \<le> 13) \<or> a = 32
      | [a, b] \<Rightarrow> a = 0xC2 \<and> (b = 0x85 \<or> b = 0xA0)
      | [a, b, c] \<Rightarrow>
          (a = 0xE1 \<and> b = 0x9A \<and> c = 0x80) \<or>
          (a = 0xE2 \<and> b = 0x80 \<and>
             ((0x80 \<le> c \<and> c \<le> 0x8A) \<or> c = 0xA8 \<or> c = 0xA9 \<or> c = 0xAF)) \<or>
          (a = 0xE2 \<and> b = 0x81 \<and> c = 0x9F) \<or>
          (a = 0xE3 \<and> b = 0x80 \<and> c = 0x80)
      | _ \<Rightarrow> False)"

definition space_width :: "string \<Rightarrow> nat" where
  "space_width s =
     (if 1 \<le> length s \<and> is_space_seq (map of_char (take 1 s)) then 1
      else if 2 \<le> length s \<and> is_space_seq (map of_char (take 2 s)) then 2
      else if 3 \<le> length s \<and> is_space_seq (map of_char (take 3 s)) then 3
      else 0)"

function TrimLeft :: "string \<Rightarrow> string" where
  "TrimLeft s = (if space_width s = 0 then s else TrimLeft (drop (space_width s) s))"
  by pat_completeness auto
termination
  by (relation "measure length") (auto simp: space_width_def split: if_splits)

definition space_width_right :: "string \<Rightarrow> nat" where
  "space_width_right s =
     (if 1 \<le> length s \<and> is_space_seq (map of_char (drop (length s - 1) s)) then 1
      else if 2 \<le> length s \<and> is_space_seq (map of_char (drop (length s - 2) s)) then 2
      else if 3 \<le> length s \<and> is_space_seq (map of_char (drop (length s - 3) s)) then 3
      else 0)"

function TrimRight :: "string \<Rightarrow> string" where
  "TrimRight s =
     (if space_width_right s = 0 then s
      else TrimRight (take (length s - space_width_right s) s))"
  by pat_completeness auto
termination
  by (relation "measure length") (auto simp: space_width_right_def split: if_splits)

definition TrimSpace :: "string \<Rightarrow> string" where
  "TrimSpace s = TrimRight (TrimLeft s)"

text \<open>
  \<open>strconv.Atoi\<close>: an optional sign and one or more decimal digits, the value within
  the 64-bit range; an error (\<open>None\<close>) otherwise.
\<close>

definition Atoi :: "string \<Rightarrow> int option" where
  "Atoi s =
     (let neg = HasPrefix s ''-'';
          ds = (if HasPrefix s ''-'' \<or> HasPrefix s ''+'' then tl s else s);
          v = (if neg then - digits_value 10 ds else digits_value 10 ds)
      in if ds \<noteq> [] \<and> list_all is_digit ds \<and> - (2 ^ 63) \<le> v \<and> v < 2 ^ 63
         then Some v else None)"

text \<open>
  \<open>strings.ToUpper\<close>, as far as the comparisons of \<open>Request\<close> with ASCII method names
  can see: the letters a..z are capitalised, and so are the two non-ASCII runes whose
  capital is an ASCII letter, U+0131 (bytes C4 B1, capital I) and U+017F (bytes C5 BF,
  capital S).  Every other byte is kept (Go maps other non-ASCII runes to non-ASCII runes).
\<close>

fun ToUpper :: "string \<Rightarrow> string" where
  "ToUpper [] = []"
| "ToUpper (c # cs) =
     (if 97 \<le> (of_char c :: nat) \<and> (of_char c :: nat) \<le> 122
      then char_of ((of_char c :: nat) - 32) # ToUpper cs
      else case cs of
             [] \<Rightarrow> [c]
           | d # ds \<Rightarrow>
               if (of_char c :: nat) = 0xC4 \<and> (of_char d :: nat) = 0xB1
               then CHR ''I'' # ToUpper ds
               else if (of_char c :: nat) = 0xC5 \<and> (of_char d :: nat) = 0xBF
               then CHR ''S'' # ToUpper ds
               else c # ToUpper cs)"

section \<open>The yEnc line decoder\<close>

text \<open>
  \<open>decodeYEncLine\<close>: the two arithmetic steps are computed on Go's \<open>int\<close> and masked
  with \<open>0xFF\<close> before the conversion to a byte.
\<close>

definition unescape :: "byte \<Rightarrow> byte" where
  "unescape n = word_of_int ((uint n - 64 - 42) AND 0xFF)"

definition unoffset :: "byte \<Rightarrow> byte" where
  "unoffset c = word_of_int ((uint c - 42) AND 0xFF)"

text \<open>The loop \<open>for i := 0; i < len(line);\<close> over the rest of the line from index \<open>i\<close>.\<close>

fun decode_loop :: "byte list \<Rightarrow> byte list \<Rightarrow> error + byte list" where
  "decode_loop [] out = Inr out"
| "decode_loop (c # rest) out =
     (if c = 0x3D then
        (case rest of
           [] \<Rightarrow> Inl MalformedEscape
         | n # rest' \<Rightarrow> decode_loop rest' (out @ [unescape n]))
      else decode_loop rest (out @ [unoffset c]))"

definition decodeYEncLine :: "byte list \<Rightarrow> error + byte list" where
  "decodeYEncLine line = (if length line = 0 then Inr [] else decode_loop line [])"

text \<open>
  Modelled from the spec: the encoder is not part of the repository.  The spec describes
  it as the mirror transform: byte \<open>b\<close> is transported as \<open>(b + 42) mod 256\<close>; a
  transported byte that would equal the escape marker \<open>=\<close> or one of "a small set of
  protocol-sensitive values" is sent as the marker followed by \<open>(b + 42 + 64) mod 256\<close>.
  The spec does not list the protocol-sensitive values, so they are the parameter
  \<open>sensitive\<close>.
\<close>

definition encode_byte :: "(byte \<Rightarrow> bool) \<Rightarrow> byte \<Rightarrow> byte list" where
  "encode_byte sensitive b =
     (if b + 42 = 0x3D \<or> sensitive (b + 42) then [0x3D, b + 42 + 64] else [b + 42])"

definition encode_line :: "(byte \<Rightarrow> bool) \<Rightarrow> byte list \<Rightarrow> byte list" where
  "encode_line sensitive bs = concat (map (encode_byte sensitive) bs)"

text \<open>
  The spec's condition for \<open>MalformedEscape\<close>: an escape marker is the final character
  of the line, with no following character to unescape.  A \<open>=\<close> that follows an escape
  marker is the escaped character, not a marker, so in a run of \<open>=\<close> characters the
  markers are the first, third, fifth, ... and the last character of the line is a marker
  exactly when the run of \<open>=\<close> that ends the line has odd length.
\<close>

definition dangling_escape :: "byte list \<Rightarrow> bool" where
  "dangling_escape line = odd (length (takeWhile (\<lambda>c. c = 0x3D) (rev line)))"

section \<open>The manifest\<close>

record Segment =
  Bytes :: int
  Number :: int
  ID :: string

record File =
  Poster :: string
  Date :: string
  Subject :: string
  Groups :: "string list"
  Segments :: "Segment list"
  Name :: string
  SizeNum :: int

text \<open>
  \<open>yEncParse\<close> matches the subject against the regular expression \<open>subjectRe\<close>,
  \<^verbatim>\<open>"(?P<name>[^"]+)"(?: yEnc)?(?: \((?P<partnum>[\d]+)\/(?P<numparts>[\d]+)\))?(?: yEnc)?[^\d]?(?P<size>[\d]+)?\<close>,
  and reads the submatches \<open>name\<close> and \<open>size\<close> of the leftmost match.  Everything
  after the closing quote is optional and greedy, so the match is found without
  backtracking, piece by piece:
  \<^item> \<open>find_quoted\<close>: the leftmost quote that is followed by one or more characters other
    than a quote and then a quote; it gives \<open>name\<close> and the text after the closing quote;
  \<^item> \<open>opt_lit '' yEnc''\<close>: the group \<^verbatim>\<open>(?: yEnc)?\<close>;
  \<^item> \<open>opt_part\<close>: the group \<^verbatim>\<open>(?: \((\d+)\/(\d+)\))?\<close>;
  \<^item> \<open>opt_nondigit\<close>: \<^verbatim>\<open>[^\d]?\<close>, one rune that is not a digit;
  \<^item> the longest run of digits that follows is \<open>size\<close> (empty when there is none).
\<close>

fun find_quoted :: "string \<Rightarrow> (string \<times> string) option" where
  "find_quoted [] = None"
| "find_quoted (c # cs) =
     (if c = CHR 0x22 \<and> takeWhile (\<lambda>x. x \<noteq> CHR 0x22) cs \<noteq> []
         \<and> dropWhile (\<lambda>x. x \<noteq> CHR 0x22) cs \<noteq> []
      then Some (takeWhile (\<lambda>x. x \<noteq> CHR 0x22) cs, tl (dropWhile (\<lambda>x. x \<noteq> CHR 0x22) cs))
      else find_quoted cs)"

definition opt_lit :: "string \<Rightarrow> string \<Rightarrow> string" where
  "opt_lit lit s = (if HasPrefix s lit then drop (length lit) s else s)"

definition opt_part :: "string \<Rightarrow> string" where
  "opt_part s =
     (let a = drop 2 s; b = dropWhile is_digit a;
          c = drop 1 b; d = dropWhile is_digit c
      in if HasPrefix s '' ('' \<and> takeWhile is_digit a \<noteq> [] \<and> HasPrefix b ''/''
            \<and> takeWhile is_digit c \<noteq> [] \<and> HasPrefix d '')''
         then drop 1 d else s)"

definition opt_nondigit :: "string \<Rightarrow> string" where
  "opt_nondigit s =
     (case s of [] \<Rightarrow> [] | c # _ \<Rightarrow> if is_digit c then s else drop (rune_width s) s)"

definition subject_submatch :: "string \<Rightarrow> (string \<times> string) option" where
  "subject_submatch subject =
     (case find_quoted subject of
        None \<Rightarrow> None
      | Some (name, rest) \<Rightarrow>
          Some (name,
            takeWhile is_digit
              (opt_nondigit (opt_lit '' yEnc'' (opt_part (opt_lit '' yEnc'' rest))))))"

text \<open>
  \<open>fmt.Sscan\<close> of a non-empty string of digits into an \<open>int64\<close>: a leading \<open>0\<close> makes
  the number octal and the scan stops before the first digit that is not octal; a value
  outside the 64-bit range is an error, which leaves the variable at 0.
\<close>

definition Sscan_int64 :: "string \<Rightarrow> int option" where
  "Sscan_int64 ds =
     (let v = (if HasPrefix ds ''0''
               then digits_value 8
                      (takeWhile (\<lambda>c. is_digit c \<and> (of_char c :: nat) \<le> 55) (tl ds))
               else digits_value 10 ds)
      in if v < 2 ^ 63 then Some v else None)"

definition yEncParse :: "string \<Rightarrow> string \<times> int" where
  "yEncParse subject =
     (case subject_submatch subject of
        None \<Rightarrow> ([], 0)
      | Some (name, sz) \<Rightarrow>
          (name, if sz \<noteq> [] then (case Sscan_int64 sz of Some v \<Rightarrow> v | None \<Rightarrow> 0) else 0))"

text \<open>
  The body of the loop "Postprocess: populate file Name and Size from subject and
  segments" of \<open>parseNZB\<close>, for one file as \<open>xml.Unmarshal\<close> left it.
\<close>

definition populate :: "File \<Rightarrow> File" where
  "populate f =
     (let (name, size) = yEncParse (Subject f);
          f1 = (if name \<noteq> [] then f\<lparr>Name := name\<rparr> else f)
      in if size > 0 then f1\<lparr>SizeNum := size\<rparr>
         else f1\<lparr>SizeNum := foldl (\<lambda>s seg. i64 (s + Bytes seg)) 0 (Segments f1)\<rparr>)"

section \<open>The get command: range and pieces\<close>

text \<open>"Determine end default to file size-1 if zero".\<close>

definition default_end :: "File \<Rightarrow> int \<Rightarrow> int" where
  "default_end file end' = (if end' = 0 then i64 (SizeNum file - 1) else end')"

text \<open>The validation of the range, on the values after the default has been applied.\<close>

definition check_range :: "File \<Rightarrow> int \<Rightarrow> int \<Rightarrow> error + (int \<times> int)" where
  "check_range file start end' =
     (if start < 0 \<or> end' < 0 \<or> start > end' \<or> end' \<ge> SizeNum file
      then Inl (RangeOutOfBounds start end' (SizeNum file))
      else Inr (start, end'))"

record piece =
  piece_id :: string
  piece_start :: int
  piece_end :: int

text \<open>
  "Build list of segments covering the requested range": the loop over
  \<open>file.Segments\<close>, with the variables \<open>pieces\<close> and \<open>offset\<close> as arguments; \<open>break\<close>
  returns the pieces.
\<close>

fun plan_loop :: "Segment list \<Rightarrow> int \<Rightarrow> int \<Rightarrow> piece list \<Rightarrow> int \<Rightarrow> piece list" where
  "plan_loop [] start end' pieces offset = pieces"
| "plan_loop (seg # segs) start end' pieces offset =
     (let segSize = Bytes seg in
      if i64 (i64 (offset + segSize) - 1) < start
      then plan_loop segs start end' pieces (i64 (offset + segSize))
      else
        let p = \<lparr>piece_id = ID seg, piece_start = 0, piece_end = i64 (segSize - 1)\<rparr>;
            p = (if length pieces = 0 then p\<lparr>piece_start := i64 (start - offset)\<rparr> else p)
        in if i64 (i64 (offset + segSize) - 1) \<ge> end'
           then pieces @
                  [p\<lparr>piece_end :=
                       i64 (i64 (segSize - i64 (i64 (i64 (offset + segSize) - 1) - end')) - 1)\<rparr>]
           else plan_loop segs start end' (pieces @ [p]) (i64 (offset + segSize)))"

definition plan :: "Segment list \<Rightarrow> int \<Rightarrow> int \<Rightarrow> piece list" where
  "plan segs start end' = plan_loop segs start end' [] 0"

text \<open>The same loop in unbounded integers, for the proofs.\<close>

fun plan_int :: "Segment list \<Rightarrow> int \<Rightarrow> int \<Rightarrow> piece list \<Rightarrow> int \<Rightarrow> piece list" where
  "plan_int [] start end' pieces offset = pieces"
| "plan_int (seg # segs) start end' pieces offset =
     (if offset + Bytes seg - 1 < start
      then plan_int segs start end' pieces (offset + Bytes seg)
      else
        let p = \<lparr>piece_id = ID seg,
                 piece_start = (if pieces = [] then start - offset else 0),
                 piece_end = Bytes seg - 1\<rparr>
        in if offset + Bytes seg - 1 \<ge> end'
           then pieces @ [p\<lparr>piece_end := Bytes seg - (offset + Bytes seg - 1 - end') - 1\<rparr>]
           else plan_int segs start end' (pieces @ [p]) (offset + Bytes seg))"

subsection \<open>The planner as the specification words it\<close>

text \<open>
  Each segment with its offset in the file (the sum of the declared sizes before it);
  \<open>seg_end\<close> is the absolute position of its last byte.
\<close>

fun seg_offsets :: "Segment list \<Rightarrow> int \<Rightarrow> (Segment \<times> int) list" where
  "seg_offsets [] off = []"
| "seg_offsets (s # ss) off = (s, off) # seg_offsets ss (off + Bytes s)"

definition seg_end :: "Segment \<times> int \<Rightarrow> int" where
  "seg_end so = snd so + Bytes (fst so) - 1"

text \<open>
  The included segments: those that do not end strictly before \<open>start\<close>, up to and
  including the first whose absolute end reaches or passes \<open>end'\<close>.
\<close>

definition included_segs :: "int \<Rightarrow> int \<Rightarrow> (Segment \<times> int) list \<Rightarrow> (Segment \<times> int) list" where
  "included_segs start end' sos =
     (let overlapping = filter (\<lambda>so. \<not> seg_end so < start) sos
      in takeWhile (\<lambda>so. seg_end so < end') overlapping @
         take 1 (dropWhile (\<lambda>so. seg_end so < end') overlapping))"

text \<open>
  \<open>intraEnd\<close> is \<open>declaredSize - 1\<close> unless the segment's absolute end reaches or passes
  \<open>end'\<close>, then \<open>declaredSize - 1 - (absoluteSegmentEnd - end')\<close>.
\<close>

definition piece_of :: "int \<Rightarrow> int \<Rightarrow> Segment \<times> int \<Rightarrow> piece" where
  "piece_of intraStart end' so =
     \<lparr>piece_id = ID (fst so), piece_start = intraStart,
      piece_end = (if seg_end so \<ge> end' then Bytes (fst so) - 1 - (seg_end so - end')
                   else Bytes (fst so) - 1)\<rparr>"

text \<open>
  The first included segment gets \<open>intraStart = start - offsetAtSegmentStart\<close>, the
  others 0.
\<close>

definition to_pieces :: "bool \<Rightarrow> int \<Rightarrow> int \<Rightarrow> (Segment \<times> int) list \<Rightarrow> piece list" where
  "to_pieces is_first start end' incl =
     (case incl of
        [] \<Rightarrow> []
      | f # others \<Rightarrow>
          piece_of (if is_first then start - snd f else 0) end' f # map (piece_of 0 end') others)"

definition plan_spec :: "Segment list \<Rightarrow> int \<Rightarrow> int \<Rightarrow> piece list" where
  "plan_spec segs start end' =
     to_pieces True start end' (included_segs start end' (seg_offsets segs 0))"

text \<open>The two steps of \<open>getCmd\<close> on the requested range, in the order of the source.\<close>

definition get_range :: "File \<Rightarrow> int \<Rightarrow> int \<Rightarrow> error + (int \<times> int)" where
  "get_range file start end0 = check_range file start (default_end file end0)"

text \<open>
  What the invariant of a piece says about a piece \<open>p\<close> of segment \<open>s\<close>; the order of
  \<open>intraStart\<close> and \<open>intraEnd\<close> is asked of segments with a positive declared size.
\<close>

definition piece_within :: "piece \<Rightarrow> Segment \<Rightarrow> bool" where
  "piece_within p s \<longleftrightarrow>
     piece_id p = ID s \<and> 0 \<le> piece_start p \<and> piece_end p < Bytes s \<and>
     (0 < Bytes s \<longrightarrow> piece_start p \<le> piece_end p)"

text \<open>The piece that covers a whole segment.\<close>

definition whole_piece :: "Segment \<Rightarrow> piece" where
  "whole_piece s = \<lparr>piece_id = ID s, piece_start = 0, piece_end = Bytes s - 1\<rparr>"

section \<open>The NNTP client\<close>

text \<open>
  \<open>NNTPClient\<close> holds a connection, a \<open>textproto\<close> reader and writer and a buffered
  writer, all on the same transport.  The model keeps what they can observe:
  \<^item> \<open>inbox\<close>: the lines the server delivers, in order and without their line ends; a
    read with no line left fails (end of input, or the read deadline of 10 seconds);
  \<^item> \<open>outbox\<close>: the lines written to the server, one entry for each \<open>PrintfLine\<close>;
  \<^item> \<open>closed\<close>: \<open>conn.Close\<close> has been called;
  \<^item> \<open>peer_gone\<close>: the transport refuses writes (the peer has reset the connection);
  \<^item> \<open>werr\<close>: the sticky error of the \<open>bufio.Writer\<close>, set by the first failed write.
  Nothing is buffered on the reading side: a read on a closed connection fails.
\<close>

record conn =
  inbox :: "string list"
  outbox :: "string list"
  closed :: bool
  peer_gone :: bool
  werr :: bool

text \<open>
  \<open>textproto.Writer.PrintfLine\<close> formats the line, appends the line end and flushes
  the buffered writer.  The argument is the formatted line.
\<close>

definition PrintfLine :: "string \<Rightarrow> conn \<Rightarrow> error option \<times> conn" where
  "PrintfLine l c =
     (if werr c then (Some WriteError, c)
      else if closed c \<or> peer_gone c then (Some WriteError, c\<lparr>werr := True\<rparr>)
      else (None, c\<lparr>outbox := outbox c @ [l]\<rparr>))"

text \<open>\<open>NNTPClient.flush\<close>: the buffer is empty after \<open>PrintfLine\<close>; the sticky error is returned.\<close>

definition flush :: "conn \<Rightarrow> error option \<times> conn" where
  "flush c = (if werr c then (Some WriteError, c) else (None, c))"

text \<open>\<open>textproto.Reader.ReadLine\<close>, under the read deadline that the caller sets.\<close>

definition ReadLine :: "conn \<Rightarrow> (error + string) \<times> conn" where
  "ReadLine c =
     (if closed c then (Inl ReadError, c)
      else case inbox c of
             [] \<Rightarrow> (Inl ReadError, c)
           | l # ls \<Rightarrow> (Inr l, c\<lparr>inbox := ls\<rparr>))"

text \<open>
  \<open>textproto.Reader.ReadDotLines\<close> reads lines until a line that is a single dot:
  "Dot by itself marks end; otherwise cut one dot".  It returns the lines read so far
  together with the error when the input ends before the terminating line.
\<close>

fun dot_lines :: "string list \<Rightarrow> string list \<Rightarrow> (string list \<times> error option) \<times> string list" where
  "dot_lines [] v = ((v, Some ReadError), [])"
| "dot_lines (line # rest) v =
     (if length line > 0 \<and> hd line = CHR ''.'' then
        (if length line = 1 then ((v, None), rest)
         else dot_lines rest (v @ [tl line]))
      else dot_lines rest (v @ [line]))"

definition ReadDotLines :: "conn \<Rightarrow> (string list \<times> error option) \<times> conn" where
  "ReadDotLines c =
     (if closed c then (([], Some ReadError), c)
      else (fst (dot_lines (inbox c) []), c\<lparr>inbox := snd (dot_lines (inbox c) [])\<rparr>))"

text \<open>
  \<open>NNTPClient.Close\<close> is \<open>conn.Close\<close>; Go's TCP and TLS connections return the error
  "use of closed network connection" when they are closed again.
  (A TLS connection also returns the failure to send its closing alert; the model is of a
  plain connection, and of a TLS connection whose closing alert can be sent.)
\<close>

definition Close :: "conn \<Rightarrow> error option \<times> conn" where
  "Close c = (if closed c then (Some ErrClosed, c) else (None, c\<lparr>closed := True\<rparr>))"

text \<open>
  The status code of \<open>Request\<close>: \<open>strings.SplitN(line, " ", 2)[0]\<close> is the line up to
  its first space; the code stays 0 when \<open>Atoi\<close> fails.
\<close>

definition status_code :: "string \<Rightarrow> int" where
  "status_code line =
     (case Atoi (TrimSpace (takeWhile (\<lambda>c. c \<noteq> CHR '' '') line)) of
        Some v \<Rightarrow> v
      | None \<Rightarrow> 0)"

text \<open>
  \<open>Request\<close> returns the code, the status line and the dot-terminated lines; a \<open>nil\<close>
  slice and an empty one are the same list.
\<close>

definition Request :: "string \<Rightarrow> string \<Rightarrow> conn \<Rightarrow> (error + int \<times> string \<times> string list) \<times> conn" where
  "Request method msgid c =
     (case PrintfLine (method @ '' '' @ msgid) c of
        (Some e, c1) \<Rightarrow> (Inl e, c1)
      | (None, c1) \<Rightarrow>
     (case flush c1 of
        (Some e, c2) \<Rightarrow> (Inl e, c2)
      | (None, c2) \<Rightarrow>
     (case ReadLine c2 of
        (Inl e, c3) \<Rightarrow> (Inl e, c3)
      | (Inr line, c3) \<Rightarrow>
          let code = status_code line; m = ToUpper method in
          if code \<ge> 200 \<and> code < 300 \<and> (m = ''BODY'' \<or> m = ''HEAD'' \<or> m = ''ARTICLE'')
          then (case ReadDotLines c3 of
                  ((lines, None), c4) \<Rightarrow> (Inr (code, line, lines), c4)
                | ((lines, Some e), c4) \<Rightarrow> (Inr (code, line, []), c4))
          else (Inr (code, line, []), c3))))"

definition Body :: "string \<Rightarrow> conn \<Rightarrow> (error + string list) \<times> conn" where
  "Body msgid c =
     (case Request ''BODY'' msgid c of
        (Inl e, c1) \<Rightarrow> (Inl e, c1)
      | (Inr (code, line, lines), c1) \<Rightarrow> (Inr lines, c1))"

definition Quit :: "conn \<Rightarrow> error option \<times> conn" where
  "Quit c = Close (snd (flush (snd (PrintfLine ''QUIT'' c))))"

definition Auth :: "string \<Rightarrow> string \<Rightarrow> conn \<Rightarrow> error option \<times> conn" where
  "Auth username password c =
     (if username = [] then (None, c)
      else
     (case PrintfLine (''AUTHINFO USER '' @ username) c of
        (Some e, c1) \<Rightarrow> (Some e, c1)
      | (None, c1) \<Rightarrow>
     (case flush c1 of
        (Some e, c2) \<Rightarrow> (Some e, c2)
      | (None, c2) \<Rightarrow>
     (case ReadLine c2 of
        (Inl e, c3) \<Rightarrow> (Some e, c3)
      | (Inr line, c3) \<Rightarrow>
          if HasPrefix line ''381'' then
            (case PrintfLine (''AUTHINFO PASS '' @ password) c3 of
               (Some e, c4) \<Rightarrow> (Some e, c4)
             | (None, c4) \<Rightarrow>
            (case flush c4 of
               (Some e, c5) \<Rightarrow> (Some e, c5)
             | (None, c5) \<Rightarrow>
            (case ReadLine c5 of
               (Inl e, c6) \<Rightarrow> (Some e, c6)
             | (Inr line2, c6) \<Rightarrow>
                 if \<not> HasPrefix line2 ''281'' then (Some (AuthRejected line2), c6)
                 else (None, c6))))
          else if HasPrefix line ''281'' then (None, c3)
          else (Some (AuthProtocolError line), c3)))))"

subsection \<open>Words of the specification about the session\<close>

text \<open>A session on which nothing has failed yet.\<close>

definition healthy :: "conn \<Rightarrow> bool" where
  "healthy c \<longleftrightarrow> \<not> closed c \<and> \<not> peer_gone c \<and> \<not> werr c"

text \<open>The 2xx success range, and the payload-bearing methods.\<close>

definition success_code :: "int \<Rightarrow> bool" where
  "success_code code \<longleftrightarrow> 200 \<le> code \<and> code < 300"

definition payload_bearing :: "string \<Rightarrow> bool" where
  "payload_bearing method \<longleftrightarrow> ToUpper method \<in> {''BODY'', ''HEAD'', ''ARTICLE''}"

text \<open>De-doubling: exactly one leading end-marker character is removed.\<close>

definition undot :: "string \<Rightarrow> string" where
  "undot line = (if HasPrefix line ''.'' then drop 1 line else line)"

section \<open>The get command: assembly\<close>

text \<open>\<open>[]byte(line)\<close> and the slice expression \<open>xs[lo:hi]\<close>.\<close>

definition bytes_of :: "string \<Rightarrow> byte list" where
  "bytes_of line = map of_char line"

definition slice :: "'a list \<Rightarrow> int \<Rightarrow> int \<Rightarrow> 'a list" where
  "slice xs lo hi = take (nat (hi - lo)) (drop (nat lo) xs)"

text \<open>
  The loop over the lines of one piece, with \<open>segWritten\<close> and the bytes written to the
  output so far as arguments.  The output is a list of bytes that grows; writing to it does
  not fail.  The bytes already written stay written when the loop returns an error.
\<close>

fun write_lines :: "piece \<Rightarrow> string list \<Rightarrow> int \<Rightarrow> byte list \<Rightarrow> error option \<times> byte list" where
  "write_lines pc [] segWritten w = (None, w)"
| "write_lines pc (line # lines) segWritten w =
     (if HasPrefix line ''=ybegin'' \<or> HasPrefix line ''=ypart'' \<or> HasPrefix line ''=yend''
      then write_lines pc lines segWritten w
      else
        case decodeYEncLine (bytes_of (if HasPrefix line ''..'' then drop 1 line else line)) of
          Inl e \<Rightarrow> (Some e, w)
        | Inr decoded \<Rightarrow>
            if length decoded = 0 then write_lines pc lines segWritten w
            else
              let chunkLen = int (length decoded);
                  startOff = (if piece_start pc > segWritten
                              then i64 (piece_start pc - segWritten) else 0);
                  endOff = (if piece_end pc < i64 (i64 (segWritten + chunkLen) - 1)
                            then i64 (piece_end pc - segWritten) else i64 (chunkLen - 1));
                  w' = (if startOff \<le> endOff
                        then w @ slice decoded startOff (i64 (endOff + 1)) else w);
                  segWritten' = i64 (segWritten + chunkLen)
              in if segWritten' > piece_end pc then (None, w')
                 else write_lines pc lines segWritten' w')"

text \<open>The loop over the pieces.\<close>

fun fetch_pieces :: "piece list \<Rightarrow> conn \<Rightarrow> byte list \<Rightarrow> (error option \<times> byte list) \<times> conn" where
  "fetch_pieces [] c w = ((None, w), c)"
| "fetch_pieces (pc # pcs) c w =
     (case Body (piece_id pc) c of
        (Inl e, c1) \<Rightarrow> ((Some (FetchBody (piece_id pc) e), w), c1)
      | (Inr lines, c1) \<Rightarrow>
          (case write_lines pc lines 0 w of
             (Some e, w1) \<Rightarrow> ((Some e, w1), c1)
           | (None, w1) \<Rightarrow> fetch_pieces pcs c1 w1))"

text \<open>
  \<open>getCmd\<close> from the point where the file has been found in the manifest: the range, the
  pieces, the authentication, the loop, and the deferred \<open>Quit\<close>.  The arguments are the
  file, the flags \<open>start\<close>, \<open>end\<close>, \<open>username\<close> and \<open>password\<close>, and the client that
  \<open>DialNNTP\<close> returns; the result is the error, the bytes written and the client at the end.
  Flag and configuration handling, the download of the manifest and the creation of the
  output file are left out.
\<close>

definition getCmd :: "File \<Rightarrow> int \<Rightarrow> int \<Rightarrow> string \<Rightarrow> string \<Rightarrow> conn \<Rightarrow> (error option \<times> byte list) \<times> conn" where
  "getCmd file start end0 u pass c =
     (case get_range file start end0 of
        Inl e \<Rightarrow> ((Some e, []), c)
      | Inr (start, end') \<Rightarrow>
          let pieces = plan (Segments file) start end' in
          case (if u \<noteq> [] then Auth u pass c else (None, c)) of
            (Some e, c1) \<Rightarrow> ((Some e, []), snd (Quit c1))
          | (None, c1) \<Rightarrow>
              (fst (fetch_pieces pieces c1 []), snd (Quit (snd (fetch_pieces pieces c1 [])))))"

text \<open>
  The true decoded content of a segment, from the payload lines as the transport returns
  them: the lines of metadata are left out, every other line is decoded.
\<close>

definition is_metadata :: "string \<Rightarrow> bool" where
  "is_metadata line \<longleftrightarrow>
     HasPrefix line ''=ybegin'' \<or> HasPrefix line ''=ypart'' \<or> HasPrefix line ''=yend''"

definition true_content :: "string list \<Rightarrow> byte list" where
  "true_content lines =
     concat (map (\<lambda>l. case decodeYEncLine (bytes_of l) of Inl e \<Rightarrow> [] | Inr d \<Rightarrow> d)
               (filter (\<lambda>l. \<not> is_metadata l) lines))"

text \<open>
  Dot-stuffing, as \<open>Post\<close> applies it to outgoing lines and a server to the lines of a
  body: a line that begins with a dot gets one more.
\<close>

definition dot_stuff :: "string \<Rightarrow> string" where
  "dot_stuff l = (if HasPrefix l ''.'' then ''.'' @ l else l)"

text \<open>
  What a server sends for a sequence of \<open>BODY\<close> requests: for each, a status line, the
  lines of the payload with their dots stuffed, and the terminating line.
\<close>

fun responses :: "(string \<times> string list) list \<Rightarrow> string list" where
  "responses [] = []"
| "responses ((status, payload) # rs) =
     status # map dot_stuff payload @ ''.'' # responses rs"

text \<open>
  A payload none of whose lines begins with two dots, and whose lines other than the
  metadata decode without error.
\<close>

definition clean_payload :: "string list \<Rightarrow> bool" where
  "clean_payload payload \<longleftrightarrow>
     (\<forall>l\<in>set payload. \<not> HasPrefix l ''..'' \<and>
        (\<not> is_metadata l \<longrightarrow> \<not> isl (decodeYEncLine (bytes_of l))))"

section \<open>Examples\<close>

text \<open>A segment with the given id and declared size.\<close>

definition segment :: "string \<Rightarrow> int \<Rightarrow> Segment" where
  "segment i n = \<lparr>Bytes = n, Number = 0, ID = i\<rparr>"

definition example_segments :: "Segment list" where
  "example_segments = [segment ''seg0'' 100, segment ''seg1'' 100]"

text \<open>A segment of declared size 0 between two segments of one byte.\<close>

definition zero_size_segments :: "Segment list" where
  "zero_size_segments = [segment ''s0'' 1, segment ''s1'' 0, segment ''s2'' 1]"

text \<open>A file whose subject carries no size, after \<open>parseNZB\<close>.\<close>

definition plain_file :: "Segment list \<Rightarrow> File" where
  "plain_file segs =
     populate \<lparr>Poster = [], Date = [], Subject = ''a.bin'', Groups = [],
               Segments = segs, Name = [], SizeNum = 0\<rparr>"

text \<open>
  A file as \<open>xml.Unmarshal\<close> leaves it, whose subject \<^verbatim>\<open>"a.bin" yEnc (1/2) 50\<close>
  carries the size 50 and whose two segments declare 100 bytes each.
\<close>

definition subject_sized_raw :: File where
  "subject_sized_raw =
     \<lparr>Poster = [], Date = [],
      Subject = CHR 0x22 # ''a.bin'' @ CHR 0x22 # '' yEnc (1/2) 50'',
      Groups = [], Segments = example_segments, Name = [], SizeNum = 0\<rparr>"

text \<open>
  A file of one segment of two bytes, both of value 4.  The encoded line is \<open>..\<close>; the
  server doubles its first dot on the wire, as the protocol asks.
\<close>

definition dotted_file :: File where
  "dotted_file = plain_file [segment ''s1@x'' 2]"

definition dotted_session :: conn where
  "dotted_session =
     \<lparr>inbox = [''222 0 <s1@x> body'', ''=ybegin line=128 size=2 name=a.bin'',
               ''...'', ''=yend size=2'', ''.''],
      outbox = [], closed = False, peer_gone = False, werr = False\<rparr>"

text \<open>A session whose server answers a \<open>STAT\<close> request, and closes politely.\<close>

definition stat_session :: conn where
  "stat_session =
     \<lparr>inbox = [''223 0 <s1@x>'', ''205 closing''],
      outbox = [], closed = False, peer_gone = False, werr = False\<rparr>"

text \<open>A session whose server asks for the password and then rejects it.\<close>

definition rejecting_session :: conn where
  "rejecting_session =
     \<lparr>inbox = [''381 password required'', ''481 auth rejected''],
      outbox = [], closed = False, peer_gone = False, werr = False\<rparr>"

text \<open>
  A file as \<open>xml.Unmarshal\<close> leaves it, whose subject \<^verbatim>\<open>"a.bin" yEnc (1/2) 3\<close>
  carries the size 3 and whose two segments declare 2 bytes each; and what a server
  answers to the \<open>BODY\<close> requests for them: the first segment holds the bytes 55, 56
  (the line \<open>ab\<close>), the second the bytes 57, 58 (the line \<open>cd\<close>).
\<close>

definition small_raw :: File where
  "small_raw =
     \<lparr>Poster = [], Date = [],
      Subject = CHR 0x22 # ''a.bin'' @ CHR 0x22 # '' yEnc (1/2) 3'',
      Groups = [], Segments = [segment ''p1'' 2, segment ''p2'' 2], Name = [], SizeNum = 0\<rparr>"

definition small_answers :: "(string \<times> string list) list" where
  "small_answers =
     [(''222 0 <p1> body'', [''=ybegin part=1 line=128 size=3 name=a.bin'', ''ab'', ''=yend size=2'']),
      (''222 0 <p2> body'', [''=ybegin part=2 line=128 size=3 name=a.bin'', ''cd'', ''=yend size=2''])]"

definition small_session :: conn where
  "small_session =
     \<lparr>inbox = responses small_answers @ [''205 closing''],
      outbox = [], closed = False, peer_gone = False, werr = False\<rparr>"

section \<open>Properties of the decoder\<close>

lemma and_0xFF: "(x::int) AND 0xFF = take_bit 8 x"
  using take_bit_eq_mask [of 8 x] by (simp add: mask_eq_exp_minus_1)

lemma unoffset_eq: "unoffset c = c - 42"
  unfolding unoffset_def and_0xFF by (simp add: wi_bintr flip: wi_hom_sub)

lemma unescape_eq: "unescape n = n - 64 - 42"
  unfolding unescape_def and_0xFF by (simp add: wi_bintr flip: wi_hom_sub)

lemma decode_loop_encode:
  "decode_loop (encode_line sensitive bs @ rest) out =
     decode_loop rest (out @ bs)"
proof (induction bs arbitrary: out)
  case Nil
  show ?case by (simp add: encode_line_def)
next
  case (Cons b bs)
  have step: "decode_loop (encode_byte sensitive b @ more) out = decode_loop more (out @ [b])"
    for more
    by (simp add: encode_byte_def unoffset_eq unescape_eq)
  have "encode_line sensitive (b # bs) @ rest =
          encode_byte sensitive b @ (encode_line sensitive bs @ rest)"
    by (simp add: encode_line_def)
  then show ?case using Cons.IH [of "out @ [b]"] by (simp add: step)
qed

lemma encode_line_Nil_iff: "encode_line sensitive bs = [] \<longleftrightarrow> bs = []"
  by (cases bs) (simp_all add: encode_line_def encode_byte_def)

lemma decodeYEncLine_encode_line:
  "decodeYEncLine (encode_line sensitive bs) = Inr bs"
  using decode_loop_encode [of sensitive bs "[]" "[]"]
  by (simp add: decodeYEncLine_def encode_line_Nil_iff)


text \<open>
  C4.  For every byte \<open>b\<close> (every value 0..255 of an 8-bit word) and every choice of the
  protocol-sensitive values, decoding the encoding of the one-byte line \<open>[b]\<close> succeeds
  and returns \<open>[b]\<close>.
\<close>

theorem decodeYEncLine_roundtrip_byte:
  "decodeYEncLine (encode_line sensitive [b]) = Inr [b]"
  by (rule decodeYEncLine_encode_line)

lemma takeWhile_all: "\<forall>x\<in>set xs. P x \<Longrightarrow> takeWhile P xs = xs"
  by (induction xs) auto

lemma takeWhile_snoc_all:
  "\<forall>x\<in>set xs. P x \<Longrightarrow> takeWhile P (xs @ ys) = xs @ takeWhile P ys"
  by (induction xs) auto

lemma trailing_run_snoc:
  "length (takeWhile P (rev xs @ [c])) =
     (if \<forall>x\<in>set xs. P x then length xs + (if P c then 1 else 0)
      else length (takeWhile P (rev xs)))"
proof (cases "\<forall>x\<in>set xs. P x")
  case True
  then have "length (takeWhile P (rev xs @ [c])) = length (rev xs @ takeWhile P [c])"
    by (subst takeWhile_snoc_all) simp_all
  with True show ?thesis by simp
next
  case False
  then obtain x where "x \<in> set (rev xs)" "\<not> P x" by auto
  then have "takeWhile P (rev xs @ [c]) = takeWhile P (rev xs)"
    by (rule takeWhile_append1)
  with False show ?thesis by auto
qed

lemma trailing_run_all:
  "\<forall>x\<in>set xs. P x \<Longrightarrow> length (takeWhile P (rev xs)) = length xs"
proof -
  assume "\<forall>x\<in>set xs. P x"
  then have "length (takeWhile P (rev xs)) = length (rev xs)"
    by (subst takeWhile_all) simp_all
  then show ?thesis by simp
qed

lemma dangling_escape_plain:
  "c \<noteq> 0x3D \<Longrightarrow> dangling_escape (c # rest) = dangling_escape rest"
  unfolding dangling_escape_def
  by (simp add: trailing_run_snoc trailing_run_all)

lemma dangling_escape_escaped:
  "dangling_escape (0x3D # n # rest) = dangling_escape rest"
proof -
  have "rev (0x3D # n # rest) = rev (n # rest) @ [0x3D]" by simp
  then show ?thesis
    unfolding dangling_escape_def
    by (simp only: trailing_run_snoc) (simp add: trailing_run_snoc trailing_run_all)
qed

lemma decode_loop_isl:
  "isl (decode_loop line out) \<longleftrightarrow> dangling_escape line"
proof (induction line out rule: decode_loop.induct)
  case (1 out)
  show ?case by (simp add: dangling_escape_def)
next
  case (2 c rest out)
  show ?case
  proof (cases "c = 0x3D")
    case False
    with 2 show ?thesis by (simp add: dangling_escape_plain)
  next
    case True
    show ?thesis
    proof (cases rest)
      case Nil
      with True show ?thesis by (simp add: dangling_escape_def)
    next
      case (Cons n rest')
      with True 2 show ?thesis by (simp add: dangling_escape_escaped)
    qed
  qed
qed

lemma decode_loop_error:
  "decode_loop line out = Inl e \<Longrightarrow> e = MalformedEscape"
proof (induction line out rule: decode_loop.induct)
  case (1 out)
  then show ?case by simp
next
  case (2 c rest out)
  then show ?case
    by (cases "c = 0x3D"; cases rest) simp_all
qed

text \<open>
  A \<open>=\<close> at the end of the line that is itself escaped is not a marker: the line
  \<open>==\<close> decodes to the one byte \<open>(61 - 64 - 42) mod 256 = 211\<close>.
\<close>

lemma escaped_marker_at_end: "decodeYEncLine [0x3D, 0x3D] = Inr [211]"
  by (simp add: decodeYEncLine_def unescape_eq)

text \<open>
  C5.  \<open>decodeYEncLine\<close> fails exactly when an escape marker is the final character of
  the line; the only error is \<open>MalformedEscape\<close>; every other input succeeds; the empty
  line gives the empty output.
\<close>

theorem decodeYEncLine_fails_iff_dangling:
  "(decodeYEncLine line = Inl MalformedEscape \<longleftrightarrow> dangling_escape line) \<and>
   (isl (decodeYEncLine line) \<longleftrightarrow> dangling_escape line) \<and>
   decodeYEncLine [] = Inr []"
proof -
  have a: "isl (decodeYEncLine line) \<longleftrightarrow> dangling_escape line"
    by (cases "line = []") (simp_all add: decodeYEncLine_def decode_loop_isl dangling_escape_def)
  have b: "decodeYEncLine line = Inl MalformedEscape" if "isl (decodeYEncLine line)"
  proof -
    from that obtain e where e: "decodeYEncLine line = Inl e"
      by (cases "decodeYEncLine line") simp_all
    then have "decode_loop line [] = Inl e"
      by (simp add: decodeYEncLine_def split: if_splits)
    then have "e = MalformedEscape" by (rule decode_loop_error)
    with e show ?thesis by simp
  qed
  have c: "decodeYEncLine [] = Inr []" by (simp add: decodeYEncLine_def)
  from a b c show ?thesis by auto
qed

section \<open>Properties of the planner\<close>

lemma i64_id: "- (2 ^ 63) \<le> x \<Longrightarrow> x < 2 ^ 63 \<Longrightarrow> i64 x = x"
  by (simp add: i64_def)

lemma sum_Bytes_nonneg:
  "\<forall>s\<in>set segs. 0 \<le> Bytes s \<Longrightarrow> 0 \<le> sum_list (map Bytes segs)"
  by (induction segs) auto

lemma plan_loop_exact:
  assumes "\<forall>s\<in>set segs. 0 \<le> Bytes s"
    and "0 \<le> offset" and "offset + sum_list (map Bytes segs) < 2 ^ 63"
    and "0 \<le> start" and "start < 2 ^ 63" and "0 \<le> end'" and "end' < 2 ^ 63"
  shows "plan_loop segs start end' pieces offset = plan_int segs start end' pieces offset"
  using assms
proof (induction segs arbitrary: pieces offset)
  case Nil
  show ?case by simp
next
  case (Cons seg segs)
  have b: "0 \<le> Bytes seg" using Cons.prems(1) by simp
  have r: "0 \<le> sum_list (map Bytes segs)"
    using Cons.prems(1) by (intro sum_Bytes_nonneg) simp
  have t: "offset + Bytes seg + sum_list (map Bytes segs) < 2 ^ 63"
    using Cons.prems(3) by (simp add: add.assoc)
  have o: "offset + Bytes seg < 2 ^ 63" using t r by linarith
  have IH: "plan_loop segs start end' ps (offset + Bytes seg) =
            plan_int segs start end' ps (offset + Bytes seg)" for ps
    using Cons.prems b t by (intro Cons.IH) auto
  have w1: "i64 (offset + Bytes seg) = offset + Bytes seg"
    using b Cons.prems(2) o by (intro i64_id) linarith+
  have w2: "i64 (offset + Bytes seg - 1) = offset + Bytes seg - 1"
    using b Cons.prems(2) o by (intro i64_id) linarith+
  have w3: "i64 (start - offset) = start - offset"
    using Cons.prems(2,4,5) o b by (intro i64_id) linarith+
  have w4: "i64 (Bytes seg - 1) = Bytes seg - 1"
    using b o Cons.prems(2) by (intro i64_id) linarith+
  have w5: "i64 (offset + Bytes seg - 1 - end') = offset + Bytes seg - 1 - end'"
    using b o Cons.prems(2,6,7) by (intro i64_id) linarith+
  show ?case
  proof (cases "offset + Bytes seg - 1 < start")
    case True
    then show ?thesis by (simp only: plan_loop.simps plan_int.simps Let_def w1 w2 IH if_True)
  next
    case skip: False
    show ?thesis
    proof (cases "end' \<le> offset + Bytes seg - 1")
      case True
      have w6: "i64 (Bytes seg - (offset + Bytes seg - 1 - end')) =
                Bytes seg - (offset + Bytes seg - 1 - end')"
        using True b o Cons.prems(2,6,7) by (intro i64_id) linarith+
      have w7: "i64 (Bytes seg - (offset + Bytes seg - 1 - end') - 1) =
                Bytes seg - (offset + Bytes seg - 1 - end') - 1"
        using True b o Cons.prems(2,6,7) by (intro i64_id) linarith+
      have "plan_loop (seg # segs) start end' pieces offset =
            pieces @ [\<lparr>piece_id = ID seg,
                       piece_start = (if pieces = [] then start - offset else 0),
                       piece_end = Bytes seg - (offset + Bytes seg - 1 - end') - 1\<rparr>]"
        using skip True
        by (simp only: plan_loop.simps Let_def w1 w2 w3 w4 w5 w6 w7) simp
      moreover have "plan_int (seg # segs) start end' pieces offset =
            pieces @ [\<lparr>piece_id = ID seg,
                       piece_start = (if pieces = [] then start - offset else 0),
                       piece_end = Bytes seg - (offset + Bytes seg - 1 - end') - 1\<rparr>]"
        using skip True by (simp only: plan_int.simps Let_def) simp
      ultimately show ?thesis by (simp only:)
    next
      case False
      have "plan_loop (seg # segs) start end' pieces offset =
            plan_int segs start end'
              (pieces @ [\<lparr>piece_id = ID seg,
                       piece_start = (if pieces = [] then start - offset else 0),
                       piece_end = Bytes seg - 1\<rparr>]) (offset + Bytes seg)"
        using skip False
        by (simp only: plan_loop.simps Let_def w1 w2 w3 w4 w5 IH) simp
      moreover have "plan_int (seg # segs) start end' pieces offset =
            plan_int segs start end'
              (pieces @ [\<lparr>piece_id = ID seg,
                       piece_start = (if pieces = [] then start - offset else 0),
                       piece_end = Bytes seg - 1\<rparr>]) (offset + Bytes seg)"
        using skip False by (simp only: plan_int.simps Let_def) simp
      ultimately show ?thesis by (simp only:)
    qed
  qed
qed

lemma to_pieces_False: "to_pieces False start end' incl = map (piece_of 0 end') incl"
  by (cases incl) (simp_all add: to_pieces_def)

lemma included_skip:
  "seg_end so < start \<Longrightarrow> included_segs start end' (so # sos) = included_segs start end' sos"
  by (simp add: included_segs_def Let_def)

lemma included_last:
  "\<not> seg_end so < start \<Longrightarrow> end' \<le> seg_end so \<Longrightarrow> included_segs start end' (so # sos) = [so]"
  by (simp add: included_segs_def Let_def)

lemma included_more:
  "\<not> seg_end so < start \<Longrightarrow> seg_end so < end' \<Longrightarrow>
     included_segs start end' (so # sos) = so # included_segs start end' sos"
  by (simp add: included_segs_def Let_def)

lemma plan_int_spec:
  "plan_int segs start end' pieces offset =
     pieces @ to_pieces (pieces = []) start end' (included_segs start end' (seg_offsets segs offset))"
proof (induction segs arbitrary: pieces offset)
  case Nil
  show ?case by (simp add: included_segs_def to_pieces_def)
next
  case (Cons seg segs)
  let ?so = "(seg, offset)"
  consider (skip) "seg_end ?so < start"
    | (last) "\<not> seg_end ?so < start" "end' \<le> seg_end ?so"
    | (more) "\<not> seg_end ?so < start" "seg_end ?so < end'"
    by linarith
  then show ?case
  proof cases
    case skip
    then show ?thesis
      using Cons.IH [of pieces "offset + Bytes seg"]
      by (simp add: included_skip) (simp add: seg_end_def)
  next
    case last
    then show ?thesis
      by (simp add: included_last to_pieces_def piece_of_def) (simp add: seg_end_def)
  next
    case more
    define p where "p = \<lparr>piece_id = ID seg,
                 piece_start = (if pieces = [] then start - offset else 0),
                 piece_end = Bytes seg - 1\<rparr>"
    define rest where
      "rest = map (piece_of 0 end')
                (included_segs start end' (seg_offsets segs (offset + Bytes seg)))"
    have step: "plan_int (seg # segs) start end' pieces offset =
                plan_int segs start end' (pieces @ [p]) (offset + Bytes seg)"
      using more by (simp add: seg_end_def p_def)
    have ih: "plan_int segs start end' (pieces @ [p]) (offset + Bytes seg) = pieces @ p # rest"
      using Cons.IH [of "pieces @ [p]" "offset + Bytes seg"]
      by (simp add: to_pieces_False rest_def)
    have "piece_of (if pieces = [] then start - offset else 0) end' ?so = p"
      using more by (simp add: piece_of_def p_def)
    then have "to_pieces (pieces = []) start end'
                 (included_segs start end' (seg_offsets (seg # segs) offset)) = p # rest"
      using more by (cases "pieces = []") (simp_all add: included_more to_pieces_def rest_def)
    with step ih show ?thesis by (simp only:)
  qed
qed

lemma plan_eq_plan_spec:
  assumes "\<forall>s\<in>set segs. 0 \<le> Bytes s" and "sum_list (map Bytes segs) < 2 ^ 63"
    and "0 \<le> start" and "start \<le> end'" and "end' < 2 ^ 63"
  shows "plan segs start end' = plan_spec segs start end'"
proof -
  have "plan segs start end' = plan_int segs start end' [] 0"
    unfolding plan_def using assms by (intro plan_loop_exact) auto
  then show ?thesis by (simp add: plan_int_spec plan_spec_def)
qed

lemma plan_int_within:
  assumes "\<forall>s\<in>set segs. 0 \<le> Bytes s" and "start \<le> end'"
    and "if pieces = [] then offset \<le> start else start < offset \<and> offset \<le> end'"
    and "list_all2 piece_within pieces done"
  shows "\<exists>skipped mid rest. segs = skipped @ mid @ rest \<and> (pieces \<noteq> [] \<longrightarrow> skipped = []) \<and>
           list_all2 piece_within (plan_int segs start end' pieces offset) (done @ mid)"
  using assms
proof (induction segs arbitrary: pieces offset "done")
  case Nil
  then show ?case by simp
next
  case (Cons seg segs)
  have b: "0 \<le> Bytes seg" and bs: "\<forall>s\<in>set segs. 0 \<le> Bytes s"
    using Cons.prems(1) by simp_all
  consider (skip) "offset + Bytes seg - 1 < start"
    | (last) "\<not> offset + Bytes seg - 1 < start" "end' \<le> offset + Bytes seg - 1"
    | (more) "\<not> offset + Bytes seg - 1 < start" "\<not> end' \<le> offset + Bytes seg - 1"
    by linarith
  then show ?case
  proof cases
    case skip
    with b Cons.prems(3) have e: "pieces = []"
      by (cases "pieces = []") auto
    have "\<exists>skipped mid rest. segs = skipped @ mid @ rest \<and> (pieces \<noteq> [] \<longrightarrow> skipped = []) \<and>
           list_all2 piece_within (plan_int segs start end' pieces (offset + Bytes seg)) (done @ mid)"
      using bs Cons.prems(2,4) skip e by (intro Cons.IH) auto
    then obtain skipped mid rest where
      "segs = skipped @ mid @ rest"
      "list_all2 piece_within (plan_int segs start end' pieces (offset + Bytes seg)) (done @ mid)"
      by blast
    then have "seg # segs = (seg # skipped) @ mid @ rest \<and> (pieces \<noteq> [] \<longrightarrow> seg # skipped = []) \<and>
        list_all2 piece_within (plan_int (seg # segs) start end' pieces offset) (done @ mid)"
      using skip e by simp
    then show ?thesis by blast
  next
    case last
    define p where "p = \<lparr>piece_id = ID seg,
                       piece_start = (if pieces = [] then start - offset else 0),
                       piece_end = Bytes seg - (offset + Bytes seg - 1 - end') - 1\<rparr>"
    have res: "plan_int (seg # segs) start end' pieces offset = pieces @ [p]"
      using last by (simp add: p_def)
    have "piece_within p seg"
      using last Cons.prems(2,3) b by (auto simp: piece_within_def p_def split: if_splits)
    then have "list_all2 piece_within (pieces @ [p]) (done @ [seg])"
      using Cons.prems(4) by (simp add: list_all2_appendI)
    then have "seg # segs = [] @ [seg] @ segs \<and> (pieces \<noteq> [] \<longrightarrow> ([]::Segment list) = []) \<and>
        list_all2 piece_within (plan_int (seg # segs) start end' pieces offset) (done @ [seg])"
      using res by simp
    then show ?thesis by blast
  next
    case more
    define p where "p = \<lparr>piece_id = ID seg,
                       piece_start = (if pieces = [] then start - offset else 0),
                       piece_end = Bytes seg - 1\<rparr>"
    have res: "plan_int (seg # segs) start end' pieces offset =
               plan_int segs start end' (pieces @ [p]) (offset + Bytes seg)"
      using more by (simp add: p_def)
    have "piece_within p seg"
      using more Cons.prems(2,3) b by (auto simp: piece_within_def p_def split: if_splits)
    then have d: "list_all2 piece_within (pieces @ [p]) (done @ [seg])"
      using Cons.prems(4) by (simp add: list_all2_appendI)
    have "\<exists>skipped mid rest. segs = skipped @ mid @ rest \<and> (pieces @ [p] \<noteq> [] \<longrightarrow> skipped = []) \<and>
           list_all2 piece_within (plan_int segs start end' (pieces @ [p]) (offset + Bytes seg))
             ((done @ [seg]) @ mid)"
      using bs Cons.prems(2) more d by (intro Cons.IH) auto
    then obtain mid rest where
      "segs = mid @ rest"
      "list_all2 piece_within (plan_int segs start end' (pieces @ [p]) (offset + Bytes seg))
             ((done @ [seg]) @ mid)"
      by auto
    then have "seg # segs = [] @ (seg # mid) @ rest \<and> (pieces \<noteq> [] \<longrightarrow> ([]::Segment list) = []) \<and>
        list_all2 piece_within (plan_int (seg # segs) start end' pieces offset) (done @ (seg # mid))"
      using res by simp
    then show ?thesis by blast
  qed
qed

text \<open>
  C8, amended.  For declared sizes that are not negative (their sum an \<open>int64\<close>) and a
  range that the validation accepts, the pieces are the pieces of a run of consecutive
  segments, one for each, and every piece has \<open>0 \<le> intraStart\<close> and
  \<open>intraEnd < declaredSize\<close> of its segment, and \<open>intraStart \<le> intraEnd\<close> when the
  declared size of its segment is positive.
\<close>

theorem plan_pieces_within_segments:
  assumes "\<forall>s\<in>set (Segments file). 0 \<le> Bytes s"
    and "sum_list (map Bytes (Segments file)) < 2 ^ 63"
    and "SizeNum file < 2 ^ 63"
    and "check_range file start end' = Inr r"
  shows "\<exists>skipped mid rest. Segments file = skipped @ mid @ rest \<and>
           list_all2 piece_within (plan (Segments file) start end') mid"
proof -
  from assms(4) have range: "0 \<le> start" "start \<le> end'" "end' < SizeNum file"
    by (auto simp: check_range_def split: if_splits)
  with assms(3) have "0 \<le> end'" "end' < 2 ^ 63" "start < 2 ^ 63" by linarith+
  with range assms(1,2)
  have "plan (Segments file) start end' = plan_int (Segments file) start end' [] 0"
    unfolding plan_def by (intro plan_loop_exact) auto
  moreover have "\<exists>skipped mid rest. Segments file = skipped @ mid @ rest \<and>
           (([]::piece list) \<noteq> [] \<longrightarrow> skipped = []) \<and>
           list_all2 piece_within (plan_int (Segments file) start end' [] 0) ([] @ mid)"
    using assms(1) range by (intro plan_int_within) auto
  ultimately show ?thesis by auto
qed

lemmas yEncParse_eval =
  yEncParse_def subject_submatch_def opt_lit_def opt_part_def opt_nondigit_def
  HasPrefix_def is_digit_def Sscan_int64_def digits_value_def rune_width_def

lemma plain_file_eval:
  "Segments (plain_file segs) = segs"
  "SizeNum (plain_file segs) = foldl (\<lambda>s seg. i64 (s + Bytes seg)) 0 segs"
  by (simp_all add: plain_file_def populate_def yEncParse_def subject_submatch_def)

lemma example_plans:
  "plan example_segments 0 199 =
     [\<lparr>piece_id = ''seg0'', piece_start = 0, piece_end = 99\<rparr>,
      \<lparr>piece_id = ''seg1'', piece_start = 0, piece_end = 99\<rparr>]"
  "plan example_segments 150 180 = [\<lparr>piece_id = ''seg1'', piece_start = 50, piece_end = 80\<rparr>]"
  by (simp_all add: example_segments_def plan_def segment_def i64_def)

text \<open>
  C3.  For every valid range over a list of segments (declared sizes not negative, their
  sum an \<open>int64\<close>), the loop of \<open>getCmd\<close> returns the pieces that the specification
  describes: the segments that end strictly before \<open>start\<close> are skipped, the first
  included piece starts at \<open>start - offsetAtSegmentStart\<close> and the others at 0, a piece
  ends at \<open>declaredSize - 1\<close> except the last, which ends at
  \<open>declaredSize - 1 - (absoluteSegmentEnd - end)\<close>, and nothing follows the last piece.
  For the sizes 100 and 100, the range 0..199 gives \<open>(seg0, 0, 99)\<close> and
  \<open>(seg1, 0, 99)\<close>, and the range 150..180 gives \<open>(seg1, 50, 80)\<close>.
\<close>

theorem plan_refines_spec:
  assumes "\<forall>s\<in>set segs. 0 \<le> Bytes s" and "sum_list (map Bytes segs) < 2 ^ 63"
    and "0 \<le> start" and "start \<le> end'" and "end' < sum_list (map Bytes segs)"
  shows "plan segs start end' = plan_spec segs start end' \<and>
         plan [segment ''seg0'' 100, segment ''seg1'' 100] 0 199 =
           [\<lparr>piece_id = ''seg0'', piece_start = 0, piece_end = 99\<rparr>,
            \<lparr>piece_id = ''seg1'', piece_start = 0, piece_end = 99\<rparr>] \<and>
         plan [segment ''seg0'' 100, segment ''seg1'' 100] 150 180 =
           [\<lparr>piece_id = ''seg1'', piece_start = 50, piece_end = 80\<rparr>]"
proof -
  have "plan segs start end' = plan_spec segs start end'"
    using assms by (intro plan_eq_plan_spec) auto
  then show ?thesis using example_plans by (simp add: example_segments_def)
qed

text \<open>The theorem at the sizes 100 and 100 and the range 150..180.\<close>

theorem plan_refines_spec_witness:
  "plan example_segments 150 180 = plan_spec example_segments 150 180 \<and>
   plan_spec example_segments 150 180 = [\<lparr>piece_id = ''seg1'', piece_start = 50, piece_end = 80\<rparr>]"
proof -
  have "plan example_segments 150 180 = plan_spec example_segments 150 180"
    using plan_refines_spec [of example_segments 150 180]
    by (simp add: example_segments_def segment_def)
  then show ?thesis using example_plans(2) by simp
qed

lemma foldl_Bytes_exact:
  assumes "\<forall>s\<in>set segs. 0 \<le> Bytes s" and "0 \<le> a" and "a + sum_list (map Bytes segs) < 2 ^ 63"
  shows "foldl (\<lambda>s seg. i64 (s + Bytes seg)) a segs = a + sum_list (map Bytes segs)"
  using assms
proof (induction segs arbitrary: a)
  case Nil
  show ?case by simp
next
  case (Cons seg segs)
  have r: "0 \<le> sum_list (map Bytes segs)"
    using Cons.prems(1) by (intro sum_Bytes_nonneg) simp
  have "i64 (a + Bytes seg) = a + Bytes seg"
    using Cons.prems r by (intro i64_id) auto
  moreover have "foldl (\<lambda>s seg. i64 (s + Bytes seg)) (a + Bytes seg) segs =
                 a + Bytes seg + sum_list (map Bytes segs)"
    using Cons.prems by (intro Cons.IH) (auto simp: add.assoc)
  ultimately show ?case by (simp add: add.assoc)
qed

lemma subject_sized_raw_eval:
  "yEncParse (Subject subject_sized_raw) = (''a.bin'', 50)"
  "Segments subject_sized_raw = example_segments"
  by (simp_all add: subject_sized_raw_def yEncParse_eval)

lemma populate_SizeNum:
  "SizeNum (populate f) =
     (if 0 < snd (yEncParse (Subject f)) then snd (yEncParse (Subject f))
      else foldl (\<lambda>s seg. i64 (s + Bytes seg)) 0 (Segments f))"
  by (simp add: populate_def Let_def split: prod.splits)

lemma populate_Segments: "Segments (populate f) = Segments f"
  by (simp add: populate_def Let_def split: prod.splits)

text \<open>
  C2, amended.  The validation fails, with \<open>RangeOutOfBounds\<close>, exactly when
  \<open>end \<ge> file.SizeNum\<close>, or \<open>start > end\<close>, or one of the bounds is negative.  After
  \<open>parseNZB\<close>, \<open>file.SizeNum\<close> is the size that the subject carries when that is
  positive, and the sum of the declared sizes of the segments otherwise (declared sizes
  not negative, their sum an \<open>int64\<close>).
\<close>

theorem check_range_against_SizeNum:
  assumes "\<forall>s\<in>set (Segments f). 0 \<le> Bytes s"
    and "sum_list (map Bytes (Segments f)) < 2 ^ 63"
  shows "SizeNum (populate f) =
           (if 0 < snd (yEncParse (Subject f)) then snd (yEncParse (Subject f))
            else sum_list (map Bytes (Segments f))) \<and>
         (isl (check_range (populate f) start end') \<longleftrightarrow>
            end' \<ge> SizeNum (populate f) \<or> start > end' \<or> start < 0 \<or> end' < 0) \<and>
         (isl (check_range (populate f) start end') \<longleftrightarrow>
            check_range (populate f) start end' =
              Inl (RangeOutOfBounds start end' (SizeNum (populate f))))"
proof -
  have "foldl (\<lambda>s seg. i64 (s + Bytes seg)) 0 (Segments f) = 0 + sum_list (map Bytes (Segments f))"
    using assms by (intro foldl_Bytes_exact) auto
  then have "SizeNum (populate f) =
           (if 0 < snd (yEncParse (Subject f)) then snd (yEncParse (Subject f))
            else sum_list (map Bytes (Segments f)))"
    by (simp add: populate_SizeNum)
  then show ?thesis by (auto simp: check_range_def)
qed

text \<open>The theorem at the file whose subject carries the size 50.\<close>

theorem check_range_against_SizeNum_witness:
  "SizeNum (populate subject_sized_raw) = 50 \<and>
   isl (check_range (populate subject_sized_raw) 0 60) \<and>
   \<not> isl (check_range (populate subject_sized_raw) 0 49)"
  using check_range_against_SizeNum [of subject_sized_raw 0 60]
    check_range_against_SizeNum [of subject_sized_raw 0 49]
  by (simp add: subject_sized_raw_eval) (simp add: example_segments_def segment_def)

text \<open>
  C2 as stated fails: for the file whose subject carries the size 50 and whose segments
  declare 100 bytes each, the range 0..60 is rejected although its end is below the sum
  200 of the declared sizes; the size used by the validation is not that sum.
\<close>

theorem check_range_sum_counterexample:
  "isl (check_range (populate subject_sized_raw) 0 60) \<and>
   \<not> (60 \<ge> sum_list (map Bytes (Segments (populate subject_sized_raw))) \<or> (0::int) > 60
       \<or> (0::int) < 0 \<or> (60::int) < 0) \<and>
   SizeNum (populate subject_sized_raw) \<noteq> sum_list (map Bytes (Segments (populate subject_sized_raw)))"
  by (simp add: check_range_def populate_SizeNum populate_Segments subject_sized_raw_eval
        example_segments_def segment_def)

text \<open>
  C8 as stated fails: with the declared sizes 1, 0, 1 the range 0..1 is accepted, and the
  piece of the segment of size 0 is \<open>(s1, 0, -1)\<close>, whose \<open>intraStart\<close> is greater than
  its \<open>intraEnd\<close>.
\<close>

theorem plan_zero_size_counterexample:
  "map Bytes (Segments (plain_file zero_size_segments)) = [1, 0, 1] \<and>
   check_range (plain_file zero_size_segments) 0 1 = Inr (0, 1) \<and>
   plan (Segments (plain_file zero_size_segments)) 0 1 =
     [\<lparr>piece_id = ''s0'', piece_start = 0, piece_end = 0\<rparr>,
      \<lparr>piece_id = ''s1'', piece_start = 0, piece_end = - 1\<rparr>,
      \<lparr>piece_id = ''s2'', piece_start = 0, piece_end = 0\<rparr>] \<and>
   \<not> piece_start (plan (Segments (plain_file zero_size_segments)) 0 1 ! 1)
       \<le> piece_end (plan (Segments (plain_file zero_size_segments)) 0 1 ! 1)"
  by (simp add: plain_file_eval check_range_def zero_size_segments_def segment_def plan_def i64_def)

text \<open>The theorem at the sizes 1, 0, 1 and the range 0..1.\<close>

theorem plan_pieces_within_segments_witness:
  "\<exists>skipped mid rest. zero_size_segments = skipped @ mid @ rest \<and>
      list_all2 piece_within (plan zero_size_segments 0 1) mid"
proof -
  have "check_range (plain_file zero_size_segments) 0 1 = Inr (0, 1)"
    by (simp add: plain_file_eval check_range_def zero_size_segments_def segment_def i64_def)
  moreover have "\<forall>s\<in>set (Segments (plain_file zero_size_segments)). 0 \<le> Bytes s"
    by (simp add: plain_file_eval zero_size_segments_def segment_def)
  moreover have "sum_list (map Bytes (Segments (plain_file zero_size_segments))) < 2 ^ 63"
    by (simp add: plain_file_eval zero_size_segments_def segment_def)
  moreover have "SizeNum (plain_file zero_size_segments) < 2 ^ 63"
    by (simp add: plain_file_eval zero_size_segments_def segment_def i64_def)
  ultimately show ?thesis
    using plan_pieces_within_segments [of "plain_file zero_size_segments" 0 1 "(0, 1)"]
    by (simp add: plain_file_eval)
qed

lemma plan_int_whole:
  assumes "\<forall>s\<in>set segs. 0 < Bytes s" and "segs \<noteq> []" and "0 \<le> offset"
    and "pieces = [] \<longrightarrow> offset = 0"
  shows "plan_int segs 0 (offset + sum_list (map Bytes segs) - 1) pieces offset =
           pieces @ map whole_piece segs"
  using assms
proof (induction segs arbitrary: pieces offset)
  case Nil
  then show ?case by simp
next
  case (Cons seg segs)
  have b: "0 < Bytes seg" using Cons.prems(1) by simp
  show ?case
  proof (cases "segs = []")
    case True
    with b Cons.prems(3,4) show ?thesis by (auto simp: whole_piece_def)
  next
    case False
    have "0 \<le> sum_list (map Bytes segs)"
      using Cons.prems(1) by (intro sum_Bytes_nonneg) auto
    moreover have "sum_list (map Bytes segs) \<noteq> 0"
    proof -
      from False obtain s ss where ss: "segs = s # ss" by (cases segs) auto
      have "\<forall>x\<in>set ss. 0 \<le> Bytes x"
        using Cons.prems(1) ss by (auto intro: less_imp_le)
      then have "0 \<le> sum_list (map Bytes ss)" by (rule sum_Bytes_nonneg)
      moreover have "0 < Bytes s" using Cons.prems(1) ss by simp
      ultimately show ?thesis using ss by simp
    qed
    ultimately have pos: "0 < sum_list (map Bytes segs)" by linarith
    have "plan_int segs 0 (offset + Bytes seg + sum_list (map Bytes segs) - 1)
            (pieces @ [whole_piece seg]) (offset + Bytes seg) =
          (pieces @ [whole_piece seg]) @ map whole_piece segs"
      using Cons.prems False b by (intro Cons.IH) auto
    then show ?thesis
      using b pos Cons.prems(3,4) by (auto simp: whole_piece_def add.assoc)
  qed
qed

lemma plan_whole_file:
  assumes "\<forall>s\<in>set segs. 0 < Bytes s" and "segs \<noteq> []"
    and "sum_list (map Bytes segs) < 2 ^ 63"
  shows "plan segs 0 (sum_list (map Bytes segs) - 1) = map whole_piece segs"
proof -
  have nn: "\<forall>s\<in>set segs. 0 \<le> Bytes s"
    using assms(1) by (auto intro: less_imp_le)
  then have "0 \<le> sum_list (map Bytes segs)" by (rule sum_Bytes_nonneg)
  moreover have "sum_list (map Bytes segs) \<noteq> 0"
  proof -
    from assms(2) obtain s ss where ss: "segs = s # ss" by (cases segs) auto
    have "\<forall>x\<in>set ss. 0 \<le> Bytes x" using nn ss by simp
    then have "0 \<le> sum_list (map Bytes ss)" by (rule sum_Bytes_nonneg)
    moreover have "0 < Bytes s" using assms(1) ss by simp
    ultimately show ?thesis using ss by simp
  qed
  ultimately have pos: "0 < sum_list (map Bytes segs)" by linarith
  have "plan segs 0 (sum_list (map Bytes segs) - 1) =
        plan_int segs 0 (sum_list (map Bytes segs) - 1) [] 0"
    unfolding plan_def using nn assms(3) pos by (intro plan_loop_exact) auto
  also have "\<dots> = plan_int segs 0 (0 + sum_list (map Bytes segs) - 1) [] 0" by simp
  also have "\<dots> = [] @ map whole_piece segs"
    using assms(1,2) by (intro plan_int_whole) auto
  finally show ?thesis by simp
qed

section \<open>Properties of the session\<close>

lemma HasPrefix_dot: "HasPrefix line ''.'' \<longleftrightarrow> line \<noteq> [] \<and> hd line = CHR ''.''"
  by (cases line) (simp_all add: HasPrefix_def)

lemma single_dot: "line = ''.'' \<longleftrightarrow> length line = 1 \<and> hd line = CHR ''.''"
  by (cases line) auto

lemma dot_lines_step:
  "line \<noteq> ''.'' \<Longrightarrow> dot_lines (line # rest) v = dot_lines rest (v @ [undot line])"
  by (cases line) (auto simp: undot_def HasPrefix_def)

lemma dot_lines_unterminated:
  "''.'' \<notin> set ls \<Longrightarrow> dot_lines ls v = ((v @ map undot ls, Some ReadError), [])"
proof (induction ls arbitrary: v)
  case Nil
  show ?case by simp
next
  case (Cons l ls)
  then have l: "l \<noteq> ''.''" and ls: "''.'' \<notin> set ls" by auto
  have "dot_lines (l # ls) v = dot_lines ls (v @ [undot l])"
    using l by (rule dot_lines_step)
  also have "\<dots> = (((v @ [undot l]) @ map undot ls, Some ReadError), [])"
    using ls by (rule Cons.IH)
  finally show ?case by (simp del: dot_lines.simps)
qed

lemma dot_lines_terminated:
  "''.'' \<notin> set body \<Longrightarrow>
     dot_lines (body @ ''.'' # after) v = ((v @ map undot body, None), after)"
proof (induction body arbitrary: v)
  case Nil
  show ?case by simp
next
  case (Cons l ls)
  then have l: "l \<noteq> ''.''" and ls: "''.'' \<notin> set ls" by auto
  have "dot_lines ((l # ls) @ ''.'' # after) v = dot_lines (ls @ ''.'' # after) (v @ [undot l])"
    using dot_lines_step [OF l, of "ls @ ''.'' # after" v] by (simp only: append_Cons)
  also have "\<dots> = (((v @ [undot l]) @ map undot ls, None), after)"
    using ls by (rule Cons.IH)
  finally show ?case by (simp del: dot_lines.simps)
qed

lemma Request_status:
  assumes "healthy c" and "inbox c = line # rest"
  shows "Request method msgid c =
     (let c3 = c\<lparr>outbox := outbox c @ [method @ '' '' @ msgid], inbox := rest\<rparr> in
      if success_code (status_code line) \<and> payload_bearing method
      then (case fst (dot_lines rest []) of
              (lines, None) \<Rightarrow> (Inr (status_code line, line, lines), c3\<lparr>inbox := snd (dot_lines rest [])\<rparr>)
            | (lines, Some e) \<Rightarrow> (Inr (status_code line, line, []), c3\<lparr>inbox := snd (dot_lines rest [])\<rparr>))
      else (Inr (status_code line, line, []), c3))"
  using assms
  by (auto simp: Request_def PrintfLine_def flush_def ReadLine_def ReadDotLines_def healthy_def
        success_code_def payload_bearing_def Let_def split: prod.splits option.splits)

text \<open>
  C6.  On a healthy session whose server answers with the status line \<open>line\<close>,
  \<open>Request\<close> succeeds with the parsed code and the status line, and
  \<^item> unless the code is in the 2xx range and the method is payload-bearing, it reads
    nothing more: the payload is empty and everything after the status line is left in
    the input;
  \<^item> when the code is in the 2xx range and the method is payload-bearing but the input
    ends without a terminating line, the failed read is not reported: \<open>Request\<close> still
    succeeds, with no payload;
  \<^item> when the terminating line is there, the payload is the lines before it, each with
    one leading dot removed, and the input continues after the terminating line.
  \<open>STAT\<close> is not payload-bearing; \<open>BODY\<close>, \<open>HEAD\<close> and \<open>ARTICLE\<close> are.
\<close>

theorem Request_payload_policy:
  assumes "healthy c" and "inbox c = line # rest"
  shows
    "(\<not> (success_code (status_code line) \<and> payload_bearing method) \<longrightarrow>
        Request method msgid c =
          (Inr (status_code line, line, []),
           c\<lparr>outbox := outbox c @ [method @ '' '' @ msgid], inbox := rest\<rparr>)) \<and>
     (success_code (status_code line) \<and> payload_bearing method \<and> ''.'' \<notin> set rest \<longrightarrow>
        Request method msgid c =
          (Inr (status_code line, line, []),
           c\<lparr>outbox := outbox c @ [method @ '' '' @ msgid], inbox := []\<rparr>)) \<and>
     (success_code (status_code line) \<and> payload_bearing method \<and>
      rest = body @ ''.'' # after \<and> ''.'' \<notin> set body \<longrightarrow>
        Request method msgid c =
          (Inr (status_code line, line, map undot body),
           c\<lparr>outbox := outbox c @ [method @ '' '' @ msgid], inbox := after\<rparr>)) \<and>
     \<not> payload_bearing ''STAT'' \<and> payload_bearing ''BODY'' \<and> payload_bearing ''HEAD'' \<and>
     payload_bearing ''ARTICLE''"
proof -
  note r = Request_status [OF assms, of "method" "msgid"]
  have a: "Request method msgid c =
          (Inr (status_code line, line, []),
           c\<lparr>outbox := outbox c @ [method @ '' '' @ msgid], inbox := rest\<rparr>)"
    if "\<not> (success_code (status_code line) \<and> payload_bearing method)"
    using that r by (auto simp: Let_def)
  have b: "Request method msgid c =
          (Inr (status_code line, line, []),
           c\<lparr>outbox := outbox c @ [method @ '' '' @ msgid], inbox := []\<rparr>)"
    if "success_code (status_code line)" "payload_bearing method" "''.'' \<notin> set rest"
    using that r by (simp add: Let_def dot_lines_unterminated)
  have c: "Request method msgid c =
          (Inr (status_code line, line, map undot body),
           c\<lparr>outbox := outbox c @ [method @ '' '' @ msgid], inbox := after\<rparr>)"
    if "success_code (status_code line)" "payload_bearing method"
       "rest = body @ ''.'' # after" "''.'' \<notin> set body"
    using that r by (simp add: Let_def dot_lines_terminated)
  have d: "\<not> payload_bearing ''STAT''" "payload_bearing ''BODY''" "payload_bearing ''HEAD''"
    "payload_bearing ''ARTICLE''"
    by (simp_all add: payload_bearing_def)
  from a b c d show ?thesis by blast
qed

lemma stat_session_eval:
  "healthy stat_session" "inbox stat_session = [''223 0 <s1@x>'', ''205 closing'']"
  "status_code ''223 0 <s1@x>'' = 223"
  by (simp_all add: stat_session_def healthy_def status_code_def TrimSpace_def space_width_def
        space_width_right_def is_space_seq_def Atoi_def HasPrefix_def digits_value_def is_digit_def)

text \<open>The theorem at a \<open>STAT\<close> request answered with the code 223.\<close>

theorem Request_payload_policy_witness:
  "success_code (status_code ''223 0 <s1@x>'') \<and>
   Request ''STAT'' ''<s1@x>'' stat_session =
     (Inr (223, ''223 0 <s1@x>'', []),
      stat_session\<lparr>outbox := [''STAT <s1@x>''], inbox := [''205 closing'']\<rparr>)"
  using Request_payload_policy [of stat_session "''223 0 <s1@x>''" "[''205 closing'']" "''STAT''"
      "''<s1@x>''" "[]" "[]"]
  by (simp add: stat_session_eval success_code_def) (simp add: stat_session_def)

text \<open>
  C7.  On a healthy session, \<open>Auth\<close> with an empty username does nothing and
  succeeds.  Otherwise it sends \<open>AUTHINFO USER\<close>; if the answer starts with 381 it sends
  \<open>AUTHINFO PASS\<close> and succeeds exactly when the second answer starts with 281, failing
  with \<open>AuthRejected\<close> otherwise; if the first answer starts with 281 it succeeds and
  no password is sent; any other first answer is the error \<open>AuthProtocolError\<close>.  An
  answer that does not arrive is a read error.
\<close>

theorem Auth_behaviour:
  assumes "healthy c"
  shows "Auth username password c =
     (if username = [] then (None, c)
      else case inbox c of
        [] \<Rightarrow> (Some ReadError, c\<lparr>outbox := outbox c @ [''AUTHINFO USER '' @ username]\<rparr>)
      | line # rest \<Rightarrow>
          if HasPrefix line ''381'' then
            (case rest of
               [] \<Rightarrow>
                 (Some ReadError,
                  c\<lparr>outbox := outbox c @ [''AUTHINFO USER '' @ username,
                                           ''AUTHINFO PASS '' @ password],
                    inbox := []\<rparr>)
             | line2 # rest2 \<Rightarrow>
                 (if HasPrefix line2 ''281'' then None else Some (AuthRejected line2),
                  c\<lparr>outbox := outbox c @ [''AUTHINFO USER '' @ username,
                                           ''AUTHINFO PASS '' @ password],
                    inbox := rest2\<rparr>))
          else if HasPrefix line ''281''
          then (None, c\<lparr>outbox := outbox c @ [''AUTHINFO USER '' @ username], inbox := rest\<rparr>)
          else (Some (AuthProtocolError line),
                c\<lparr>outbox := outbox c @ [''AUTHINFO USER '' @ username], inbox := rest\<rparr>))"
proof (cases "inbox c")
  case Nil
  with assms show ?thesis
    by (simp add: Auth_def PrintfLine_def flush_def ReadLine_def healthy_def)
next
  case (Cons line rest)
  show ?thesis
  proof (cases rest)
    case Nil
    with Cons assms show ?thesis
      by (simp add: Auth_def PrintfLine_def flush_def ReadLine_def healthy_def)
  next
    case (Cons line2 rest2)
    with \<open>inbox c = line # rest\<close> assms show ?thesis
      by (simp add: Auth_def PrintfLine_def flush_def ReadLine_def healthy_def)
  qed
qed

text \<open>The theorem at a server that asks for the password and rejects it.\<close>

theorem Auth_behaviour_witness:
  "healthy rejecting_session \<and>
   Auth ''u'' ''p'' rejecting_session =
     (Some (AuthRejected ''481 auth rejected''),
      rejecting_session\<lparr>outbox := [''AUTHINFO USER u'', ''AUTHINFO PASS p''], inbox := []\<rparr>)"
proof -
  have h: "healthy rejecting_session"
    by (simp add: rejecting_session_def healthy_def)
  show ?thesis
    using h Auth_behaviour [OF h, of "''u''" "''p''"]
    by (simp add: rejecting_session_def HasPrefix_def)
qed

text \<open>
  C9, amended.  \<open>Quit\<close> sends \<open>QUIT\<close> when the session is healthy and ignores the
  failure to send it otherwise, closes the transport on every call, and returns what
  closing the transport returns: success on an open session, the error of a closed
  connection on a closed one.  A second call therefore leaves the session closed and sends
  nothing, and returns that error.
\<close>

theorem Quit_closes_transport:
  "fst (Quit c) = (if closed c then Some ErrClosed else None) \<and>
   closed (snd (Quit c)) \<and>
   outbox (snd (Quit c)) = (if healthy c then outbox c @ [''QUIT''] else outbox c) \<and>
   inbox (snd (Quit c)) = inbox c \<and>
   fst (Quit (snd (Quit c))) = Some ErrClosed \<and>
   outbox (snd (Quit (snd (Quit c)))) = outbox (snd (Quit c))"
  by (simp add: Quit_def Close_def PrintfLine_def flush_def healthy_def)

text \<open>
  C9 as stated fails: on an open session the first \<open>Quit\<close> succeeds and the second
  returns an error.
\<close>

theorem Quit_twice_counterexample:
  "fst (Quit stat_session) = None \<and> fst (Quit (snd (Quit stat_session))) = Some ErrClosed"
  by (simp add: Quit_def Close_def PrintfLine_def flush_def stat_session_def)

section \<open>Properties of the assembly\<close>

lemma undot_dot_stuff: "undot (dot_stuff l) = l"
  by (cases l) (simp_all add: undot_def dot_stuff_def HasPrefix_def)

lemma dot_stuff_not_terminator: "dot_stuff l \<noteq> ''.''"
  by (cases l) (auto simp: dot_stuff_def HasPrefix_def)

lemma Body_payload:
  assumes "healthy c" and "inbox c = status # map dot_stuff payload @ ''.'' # after"
    and "success_code (status_code status)"
  shows "Body i c = (Inr payload, c\<lparr>outbox := outbox c @ [''BODY '' @ i], inbox := after\<rparr>)"
proof -
  have "''.'' \<notin> set (map dot_stuff payload)"
  proof
    assume "''.'' \<in> set (map dot_stuff payload)"
    then obtain x where "dot_stuff x = ''.''" by auto
    then show False by (simp add: dot_stuff_not_terminator)
  qed
  then have "dot_lines (map dot_stuff payload @ ''.'' # after) [] =
             (([] @ map undot (map dot_stuff payload), None), after)"
    by (rule dot_lines_terminated)
  then have d: "dot_lines (map dot_stuff payload @ ''.'' # after) [] = ((payload, None), after)"
    by (simp add: undot_dot_stuff comp_def)
  have "payload_bearing ''BODY''" by (simp add: payload_bearing_def)
  then show ?thesis
    using Request_status [OF assms(1,2), of "''BODY''" i] assms(3) d
    by (simp add: Body_def Let_def)
qed

lemma true_content_Cons:
  "true_content (l # ls) =
     (if is_metadata l then true_content ls
      else (case decodeYEncLine (bytes_of l) of Inl e \<Rightarrow> [] | Inr d \<Rightarrow> d) @ true_content ls)"
  by (simp add: true_content_def)

lemma write_lines_whole:
  assumes "piece_start pc = 0" and "piece_end pc = n - 1" and "n < 2 ^ 63"
    and "0 \<le> k" and "k + int (length (true_content lines)) \<le> n"
    and "clean_payload lines"
  shows "write_lines pc lines k w = (None, w @ true_content lines)"
  using assms(4-6)
proof (induction lines arbitrary: k w)
  case Nil
  show ?case by (simp add: true_content_def)
next
  case (Cons line lines)
  have cl: "clean_payload lines" and nd: "\<not> HasPrefix line ''..''"
    using Cons.prems(3) by (simp_all add: clean_payload_def)
  show ?case
  proof (cases "is_metadata line")
    case True
    then have "write_lines pc (line # lines) k w = write_lines pc lines k w"
      by (simp add: is_metadata_def)
    moreover have "true_content (line # lines) = true_content lines"
      using True by (simp add: true_content_Cons)
    ultimately show ?thesis using Cons.IH [of k w] Cons.prems cl by simp
  next
    case False
    then have "\<not> isl (decodeYEncLine (bytes_of line))"
      using Cons.prems(3) by (simp add: clean_payload_def)
    then obtain decoded where dec: "decodeYEncLine (bytes_of line) = Inr decoded"
      by (cases "decodeYEncLine (bytes_of line)") auto
    have tc: "true_content (line # lines) = decoded @ true_content lines"
      using False dec by (simp add: true_content_Cons)
    have nm: "\<not> (HasPrefix line ''=ybegin'' \<or> HasPrefix line ''=ypart'' \<or> HasPrefix line ''=yend'')"
      using False by (simp add: is_metadata_def)
    show ?thesis
    proof (cases "decoded = []")
      case True
      then have "write_lines pc (line # lines) k w = write_lines pc lines k w"
        using nm nd dec by simp
      then show ?thesis using Cons.IH [of k w] Cons.prems cl tc True by simp
    next
      case ne: False
      define m where "m = int (length decoded)"
      have m: "1 \<le> m" using ne by (cases decoded) (simp_all add: m_def)
      have bound: "k + m + int (length (true_content lines)) \<le> n"
        using Cons.prems(2) tc by (simp add: m_def)
      have w1: "i64 (k + m) = k + m"
        using m Cons.prems(1) bound assms(3) by (intro i64_id) linarith+
      have w2: "i64 (k + m - 1) = k + m - 1"
        using m Cons.prems(1) bound assms(3) by (intro i64_id) linarith+
      have w3: "i64 (m - 1) = m - 1"
        using m Cons.prems(1) bound assms(3) by (intro i64_id) linarith+
      have w4: "i64 m = m"
        using m Cons.prems(1) bound assms(3) by (intro i64_id) linarith+
      have sl: "slice decoded 0 m = decoded"
        by (simp add: slice_def m_def)
      have step: "write_lines pc (line # lines) k w =
                  (if k + m > n - 1 then (None, w @ decoded)
                   else write_lines pc lines (k + m) (w @ decoded))"
        using nm nd dec ne m Cons.prems(1) bound assms(1,2)
        by (simp add: Let_def w1 w2 w3 w4 sl flip: m_def)
      show ?thesis
      proof (cases "k + m > n - 1")
        case True
        with bound have "int (length (true_content lines)) \<le> 0" by linarith
        then have "true_content lines = []" by simp
        with step True tc show ?thesis by simp
      next
        case False
        have "write_lines pc lines (k + m) (w @ decoded) = (None, (w @ decoded) @ true_content lines)"
          using m Cons.prems(1) bound cl by (intro Cons.IH) auto
        with step False tc show ?thesis by simp
      qed
    qed
  qed
qed

lemma fetch_whole_pieces:
  assumes "list_all2 (\<lambda>s r. success_code (status_code (fst r)) \<and> clean_payload (snd r) \<and>
              int (length (true_content (snd r))) \<le> Bytes s \<and> Bytes s < 2 ^ 63) segs rs"
    and "healthy c" and "inbox c = responses rs @ after"
  shows "fetch_pieces (map whole_piece segs) c w =
           ((None, w @ concat (map (\<lambda>r. true_content (snd r)) rs)),
            c\<lparr>outbox := outbox c @ map (\<lambda>s. ''BODY '' @ ID s) segs, inbox := after\<rparr>)"
  using assms
proof (induction segs rs arbitrary: c w rule: list_all2_induct)
  case Nil
  then show ?case by simp
next
  case (Cons s segs r rs)
  obtain status payload where r: "r = (status, payload)" by (cases r)
  define c1 where "c1 = c\<lparr>outbox := outbox c @ [''BODY '' @ ID s], inbox := responses rs @ after\<rparr>"
  have inb: "inbox c = status # map dot_stuff payload @ ''.'' # (responses rs @ after)"
    using Cons.prems(2) r by simp
  have body: "Body (ID s) c = (Inr payload, c1)"
    unfolding c1_def using Cons.prems(1) inb Cons.hyps(1) r by (intro Body_payload) auto
  have wl: "write_lines (whole_piece s) payload 0 w = (None, w @ true_content payload)"
    using Cons.hyps(1) r
    by (intro write_lines_whole [where n = "Bytes s"]) (auto simp: whole_piece_def)
  have h1: "healthy c1" "inbox c1 = responses rs @ after"
    using Cons.prems(1) by (simp_all add: c1_def healthy_def)
  have "fetch_pieces (map whole_piece segs) c1 (w @ true_content payload) =
           ((None, (w @ true_content payload) @ concat (map (\<lambda>r. true_content (snd r)) rs)),
            c1\<lparr>outbox := outbox c1 @ map (\<lambda>s. ''BODY '' @ ID s) segs, inbox := after\<rparr>)"
    using h1 by (rule Cons.IH)
  moreover have "piece_id (whole_piece s) = ID s" by (simp add: whole_piece_def)
  ultimately show ?case
    using body wl r by (simp add: c1_def)
qed

lemma Bytes_le_sum:
  "\<forall>s\<in>set segs. 0 \<le> Bytes s \<Longrightarrow> x \<in> set segs \<Longrightarrow> Bytes x \<le> sum_list (map Bytes segs)"
proof (induction segs)
  case Nil
  then show ?case by simp
next
  case (Cons s segs)
  have "0 \<le> sum_list (map Bytes segs)" using Cons.prems(1) by (intro sum_Bytes_nonneg) simp
  moreover have "0 \<le> Bytes s" using Cons.prems(1) by simp
  ultimately show ?case using Cons by auto
qed

text \<open>
  What the assembly does get right.  For a file whose size is the sum of positive declared
  sizes, on a healthy session whose server answers every \<open>BODY\<close> request with a 2xx
  status and a payload that is clean and decodes to no more bytes than the segment
  declares, \<open>getCmd\<close> asked for the whole file writes the true decoded content of all
  segments, in order.
\<close>

lemma getCmd_whole_file:
  assumes sizes: "\<forall>s\<in>set (Segments file). 0 < Bytes s"
    and size: "SizeNum file = sum_list (map Bytes (Segments file))"
      "0 < SizeNum file" "SizeNum file < 2 ^ 63"
    and payloads: "list_all2 (\<lambda>s r. success_code (status_code (fst r)) \<and> clean_payload (snd r) \<and>
              int (length (true_content (snd r))) \<le> Bytes s) (Segments file) rs"
    and session: "healthy c" "inbox c = responses rs @ after"
  shows "fst (getCmd file 0 0 [] [] c) = (None, concat (map (\<lambda>r. true_content (snd r)) rs))"
proof -
  have nn: "\<forall>s\<in>set (Segments file). 0 \<le> Bytes s"
    using sizes by (auto intro: less_imp_le)
  have ne: "Segments file \<noteq> []" using size by auto
  have "default_end file 0 = SizeNum file - 1"
    using size by (simp add: default_end_def i64_id)
  then have range: "get_range file 0 0 = Inr (0, SizeNum file - 1)"
    using size by (simp add: get_range_def check_range_def)
  have pieces: "plan (Segments file) 0 (SizeNum file - 1) = map whole_piece (Segments file)"
    using plan_whole_file [OF sizes ne] size by simp
  have "list_all2 (\<lambda>s r. success_code (status_code (fst r)) \<and> clean_payload (snd r) \<and>
              int (length (true_content (snd r))) \<le> Bytes s \<and> Bytes s < 2 ^ 63) (Segments file) rs"
  proof (rule list.rel_mono_strong [OF payloads])
    fix s r
    assume mem: "s \<in> set (Segments file)"
      and p: "success_code (status_code (fst r)) \<and> clean_payload (snd r) \<and>
              int (length (true_content (snd r))) \<le> Bytes s"
    have "Bytes s \<le> sum_list (map Bytes (Segments file))"
      using nn mem by (rule Bytes_le_sum)
    with p size show "success_code (status_code (fst r)) \<and> clean_payload (snd r) \<and>
              int (length (true_content (snd r))) \<le> Bytes s \<and> Bytes s < 2 ^ 63"
      by auto
  qed
  then have "fetch_pieces (map whole_piece (Segments file)) c [] =
           ((None, [] @ concat (map (\<lambda>r. true_content (snd r)) rs)),
            c\<lparr>outbox := outbox c @ map (\<lambda>s. ''BODY '' @ ID s) (Segments file), inbox := after\<rparr>)"
    using session by (rule fetch_whole_pieces)
  then show ?thesis
    using range pieces by (simp add: getCmd_def)
qed

section \<open>The end of the range at the entry point\<close>

lemma write_lines_prefix:
  assumes "piece_start pc = 0" and "piece_end pc = e" and "e < 2 ^ 63"
    and "0 \<le> k" and "k \<le> e" and "k + int (length (true_content lines)) < 2 ^ 63"
    and "clean_payload lines"
  shows "write_lines pc lines k w = (None, w @ take (nat (e + 1 - k)) (true_content lines))"
  using assms(4-7)
proof (induction lines arbitrary: k w)
  case Nil
  show ?case by (simp add: true_content_def)
next
  case (Cons line lines)
  have cl: "clean_payload lines" and nd: "\<not> HasPrefix line ''..''"
    using Cons.prems(4) by (simp_all add: clean_payload_def)
  show ?case
  proof (cases "is_metadata line")
    case True
    then have "write_lines pc (line # lines) k w = write_lines pc lines k w"
      by (simp add: is_metadata_def)
    moreover have "true_content (line # lines) = true_content lines"
      using True by (simp add: true_content_Cons)
    ultimately show ?thesis using Cons.IH [of k w] Cons.prems cl by simp
  next
    case False
    then have "\<not> isl (decodeYEncLine (bytes_of line))"
      using Cons.prems(4) by (simp add: clean_payload_def)
    then obtain decoded where dec: "decodeYEncLine (bytes_of line) = Inr decoded"
      by (cases "decodeYEncLine (bytes_of line)") auto
    have tc: "true_content (line # lines) = decoded @ true_content lines"
      using False dec by (simp add: true_content_Cons)
    have nm: "\<not> (HasPrefix line ''=ybegin'' \<or> HasPrefix line ''=ypart'' \<or> HasPrefix line ''=yend'')"
      using False by (simp add: is_metadata_def)
    show ?thesis
    proof (cases "decoded = []")
      case True
      then have "write_lines pc (line # lines) k w = write_lines pc lines k w"
        using nm nd dec by simp
      then show ?thesis using Cons.IH [of k w] Cons.prems cl tc True by simp
    next
      case ne: False
      define m where "m = int (length decoded)"
      have m: "1 \<le> m" using ne by (cases decoded) (simp_all add: m_def)
      have len: "length decoded = nat m" by (simp add: m_def)
      have bound: "k + m + int (length (true_content lines)) < 2 ^ 63"
        using Cons.prems(3) tc by (simp add: m_def)
      have w1: "i64 (k + m) = k + m"
        using m Cons.prems(1) bound by (intro i64_id) linarith+
      have w2: "i64 (k + m - 1) = k + m - 1"
        using m Cons.prems(1) bound by (intro i64_id) linarith+
      have w3: "i64 (m - 1) = m - 1"
        using m Cons.prems(1) bound by (intro i64_id) linarith+
      have w4: "i64 m = m"
        using m Cons.prems(1) bound by (intro i64_id) linarith+
      have w5: "i64 (e - k) = e - k"
        using Cons.prems(1,2) assms(3) by (intro i64_id) linarith+
      show ?thesis
      proof (cases "e < k + m - 1")
        case True
        have w6: "i64 (e - k + 1) = e - k + 1"
          using True Cons.prems(1,2) bound by (intro i64_id) linarith+
        have "write_lines pc (line # lines) k w = (None, w @ slice decoded 0 (e - k + 1))"
          using nm nd dec ne m Cons.prems(1,2) True assms(1,2)
          by (simp add: Let_def w1 w2 w3 w4 w5 w6 flip: m_def)
        moreover have "slice decoded 0 (e - k + 1) = take (nat (e + 1 - k)) decoded"
          by (simp add: slice_def algebra_simps)
        moreover have "take (nat (e + 1 - k)) (decoded @ true_content lines) =
                       take (nat (e + 1 - k)) decoded"
          using True len by simp
        ultimately show ?thesis using tc by simp
      next
        case False
        have sl: "slice decoded 0 m = decoded" by (simp add: slice_def m_def)
        have step: "write_lines pc (line # lines) k w =
                  (if k + m > e then (None, w @ decoded)
                   else write_lines pc lines (k + m) (w @ decoded))"
          using nm nd dec ne m Cons.prems(1,2) False assms(1,2)
          by (simp add: Let_def w1 w2 w3 w4 sl flip: m_def)
        show ?thesis
        proof (cases "k + m > e")
          case True
          with False have "e + 1 - k = m" by linarith
          then have "take (nat (e + 1 - k)) (decoded @ true_content lines) = decoded"
            using len by simp
          with step True tc show ?thesis by simp
        next
          case le: False
          have "write_lines pc lines (k + m) (w @ decoded) =
                (None, (w @ decoded) @ take (nat (e + 1 - (k + m))) (true_content lines))"
            using m Cons.prems(1) bound cl le by (intro Cons.IH) auto
          moreover have "take (nat (e + 1 - k)) (decoded @ true_content lines) =
                decoded @ take (nat (e + 1 - (k + m))) (true_content lines)"
          proof -
            have "nat (e + 1 - k) = length decoded + nat (e + 1 - (k + m))"
              using le m len by (simp add: nat_add_distrib [symmetric])
            then show ?thesis by simp
          qed
          ultimately show ?thesis using step le tc by simp
        qed
      qed
    qed
  qed
qed

lemma fetch_included_pieces:
  assumes "list_all2 (\<lambda>s r. 0 < Bytes s \<and> success_code (status_code (fst r)) \<and>
              clean_payload (snd r) \<and> int (length (true_content (snd r))) = Bytes s) segs rs"
    and "0 \<le> off" and "off \<le> e" and "e < 2 ^ 63"
    and "off + sum_list (map Bytes segs) < 2 ^ 63"
    and "healthy c" and "inbox c = responses rs @ after"
  shows "fst (fetch_pieces (map (piece_of 0 e) (included_segs 0 e (seg_offsets segs off))) c w) =
           (None, w @ take (nat (e + 1 - off)) (concat (map (\<lambda>r. true_content (snd r)) rs)))"
  using assms
proof (induction segs rs arbitrary: off c w rule: list_all2_induct)
  case Nil
  then show ?case by (simp add: included_segs_def)
next
  case (Cons s segs r rs)
  obtain status payload where r: "r = (status, payload)" by (cases r)
  from Cons.hyps(1) r have b: "0 < Bytes s" and ok: "success_code (status_code status)"
    and cl: "clean_payload payload" and len: "int (length (true_content payload)) = Bytes s"
    by simp_all
  have nn: "0 \<le> sum_list (map Bytes segs)"
  proof (rule sum_Bytes_nonneg, rule ballI)
    fix x assume "x \<in> set segs"
    then obtain y where "0 < Bytes x \<and> success_code (status_code (fst y)) \<and>
              clean_payload (snd y) \<and> int (length (true_content (snd y))) = Bytes x"
      using Cons.hyps(2) by (auto simp: list_all2_conv_all_nth in_set_conv_nth)
    then show "0 \<le> Bytes x" by simp
  qed
  have tot: "off + Bytes s + sum_list (map Bytes segs) < 2 ^ 63"
    using Cons.prems(4) by (simp add: add.assoc)
  define c1 where "c1 = c\<lparr>outbox := outbox c @ [''BODY '' @ ID s], inbox := responses rs @ after\<rparr>"
  have inb: "inbox c = status # map dot_stuff payload @ ''.'' # (responses rs @ after)"
    using Cons.prems(6) r by simp
  have body: "Body (ID s) c = (Inr payload, c1)"
    unfolding c1_def using Cons.prems(5) inb ok by (rule Body_payload)
  have h1: "healthy c1" "inbox c1 = responses rs @ after"
    using Cons.prems(5) by (simp_all add: c1_def healthy_def)
  have notskip: "\<not> seg_end (s, off) < 0"
    using b Cons.prems(1) by (simp add: seg_end_def)
  show ?case
  proof (cases "e \<le> seg_end (s, off)")
    case True
    have incl: "included_segs 0 e (seg_offsets (s # segs) off) = [(s, off)]"
      using notskip True by (simp add: included_last)
    define pc where "pc = piece_of 0 e (s, off)"
    have pc: "piece_id pc = ID s" "piece_start pc = 0" "piece_end pc = e - off"
      using True by (simp_all add: pc_def piece_of_def seg_end_def)
    have wl0: "write_lines pc payload 0 w =
            (None, w @ take (nat (e - off + 1 - 0)) (true_content payload))"
      using pc(2,3) Cons.prems(1,2,3) cl len b tot nn
      by (intro write_lines_prefix) auto
    have eq: "nat (e - off + 1 - 0) = nat (e + 1 - off)"
      by (rule arg_cong [where f = nat]) simp
    have wl: "write_lines pc payload 0 w =
            (None, w @ take (nat (e + 1 - off)) (true_content payload))"
      using wl0 unfolding eq .
    have "take (nat (e + 1 - off))
                     (concat (map (\<lambda>r. true_content (snd r)) ((status, payload) # rs))) =
                   take (nat (e + 1 - off)) (true_content payload)"
    proof -
      have lenN: "length (true_content payload) = nat (Bytes s)"
        by (metis len nat_int)
      have "e + 1 - off \<le> Bytes s"
        using True by (simp add: seg_end_def)
      then have "nat (e + 1 - off) \<le> length (true_content payload)"
        using lenN by linarith
      then show ?thesis by simp
    qed
    then show ?thesis
      using incl body pc(1) r wl by (simp flip: pc_def)
  next
    case False
    have incl: "included_segs 0 e (seg_offsets (s # segs) off) =
                (s, off) # included_segs 0 e (seg_offsets segs (off + Bytes s))"
      using notskip False by (simp add: included_more)
    define pc where "pc = piece_of 0 e (s, off)"
    have pc: "piece_id pc = ID s" "piece_start pc = 0" "piece_end pc = Bytes s - 1"
      using False by (simp_all add: pc_def piece_of_def)
    have "write_lines pc payload 0 w =
            (None, w @ take (nat (Bytes s - 1 + 1 - 0)) (true_content payload))"
      using pc(2,3) cl len b tot nn Cons.prems(1)
      by (intro write_lines_prefix) auto
    moreover have "nat (Bytes s - 1 + 1 - 0) = length (true_content payload)"
      by (metis len nat_int diff_add_cancel diff_zero)
    ultimately have wl: "write_lines pc payload 0 w = (None, w @ true_content payload)"
      by simp
    have ih: "fst (fetch_pieces
                (map (piece_of 0 e) (included_segs 0 e (seg_offsets segs (off + Bytes s))))
                c1 (w @ true_content payload)) =
           (None, (w @ true_content payload) @
              take (nat (e + 1 - (off + Bytes s))) (concat (map (\<lambda>r. true_content (snd r)) rs)))"
      using h1 b Cons.prems(1,3) False tot
      by (intro Cons.IH) (auto simp: seg_end_def)
    have "take (nat (e + 1 - off)) (concat (map (\<lambda>r. true_content (snd r)) ((status, payload) # rs))) =
          true_content payload @
            take (nat (e + 1 - (off + Bytes s))) (concat (map (\<lambda>r. true_content (snd r)) rs))"
    proof -
      have lenN: "length (true_content payload) = nat (Bytes s)"
        by (metis len nat_int)
      have "0 \<le> e + 1 - (off + Bytes s)"
        using False by (simp add: seg_end_def)
      then have "nat (Bytes s + (e + 1 - (off + Bytes s))) =
                 nat (Bytes s) + nat (e + 1 - (off + Bytes s))"
        using b by (intro nat_add_distrib) auto
      moreover have "Bytes s + (e + 1 - (off + Bytes s)) = e + 1 - off" by simp
      ultimately have "nat (e + 1 - off) =
                       length (true_content payload) + nat (e + 1 - (off + Bytes s))"
        using lenN by simp
      then show ?thesis by simp
    qed
    then show ?thesis
      using incl body wl ih pc(1) r by (simp flip: pc_def)
  qed
qed

lemma plan_from_zero:
  assumes "\<forall>s\<in>set segs. 0 < Bytes s" and "sum_list (map Bytes segs) < 2 ^ 63"
    and "0 \<le> e" and "e < 2 ^ 63"
  shows "plan segs 0 e = map (piece_of 0 e) (included_segs 0 e (seg_offsets segs 0))"
proof -
  have nn: "\<forall>s\<in>set segs. 0 \<le> Bytes s"
    using assms(1) by (auto intro: less_imp_le)
  have "plan segs 0 e = plan_int segs 0 e [] 0"
    unfolding plan_def using nn assms(2-4) by (intro plan_loop_exact) auto
  also have "\<dots> = to_pieces True 0 e (included_segs 0 e (seg_offsets segs 0))"
    by (simp add: plan_int_spec)
  also have "\<dots> = map (piece_of 0 e) (included_segs 0 e (seg_offsets segs 0))"
  proof (cases segs)
    case Nil
    then show ?thesis by (simp add: included_segs_def to_pieces_def)
  next
    case (Cons s ss)
    then have "\<not> seg_end (s, 0) < 0" using assms(1) by (simp add: seg_end_def)
    then have "\<exists>tl. included_segs 0 e (seg_offsets segs 0) = (s, 0) # tl"
      using Cons by (cases "e \<le> seg_end (s, 0)") (simp_all add: included_last included_more)
    then show ?thesis by (auto simp: to_pieces_def)
  qed
  finally show ?thesis .
qed

lemma content_length:
  "list_all2 (\<lambda>s r. int (length (true_content (snd r))) = Bytes s) segs rs \<Longrightarrow>
     int (length (concat (map (\<lambda>r. true_content (snd r)) rs))) = sum_list (map Bytes segs)"
  by (induction segs rs rule: list_all2_induct) simp_all

lemma getCmd_end_zero_content:
  assumes sizes: "\<forall>s\<in>set (Segments file). 0 < Bytes s"
    and total: "sum_list (map Bytes (Segments file)) < 2 ^ 63"
    and size: "0 < SizeNum file" "SizeNum file < 2 ^ 63"
    and payloads: "list_all2 (\<lambda>s r. success_code (status_code (fst r)) \<and> clean_payload (snd r) \<and>
              int (length (true_content (snd r))) = Bytes s) (Segments file) rs"
    and auth: "Auth u pass c = (None, c1)"
    and session: "healthy c1" "inbox c1 = responses rs @ after"
  shows "fst (getCmd file 0 0 u pass c) =
           (None, take (nat (SizeNum file)) (concat (map (\<lambda>r. true_content (snd r)) rs)))"
proof -
  have "default_end file 0 = SizeNum file - 1"
    using size by (simp add: default_end_def i64_id)
  then have range: "get_range file 0 0 = Inr (0, SizeNum file - 1)"
    using size by (simp add: get_range_def check_range_def)
  have pieces: "plan (Segments file) 0 (SizeNum file - 1) =
      map (piece_of 0 (SizeNum file - 1))
        (included_segs 0 (SizeNum file - 1) (seg_offsets (Segments file) 0))"
    using sizes total size by (intro plan_from_zero) auto
  have au: "(if u \<noteq> [] then Auth u pass c else (None, c)) = (None, c1)"
    using auth by (auto simp: Auth_def)
  have "list_all2 (\<lambda>s r. 0 < Bytes s \<and> success_code (status_code (fst r)) \<and>
              clean_payload (snd r) \<and> int (length (true_content (snd r))) = Bytes s)
          (Segments file) rs"
    using sizes by (intro list.rel_mono_strong [OF payloads]) auto
  then have "fst (fetch_pieces
                (map (piece_of 0 (SizeNum file - 1))
                   (included_segs 0 (SizeNum file - 1) (seg_offsets (Segments file) 0))) c1 []) =
           (None, [] @ take (nat (SizeNum file - 1 + 1 - 0))
                    (concat (map (\<lambda>r. true_content (snd r)) rs)))"
    using size total session by (intro fetch_included_pieces) auto
  then show ?thesis
    using range pieces au by (simp add: getCmd_def)
qed

lemma getCmd_end_rewritten:
  "getCmd file start 0 u pass c = getCmd file start (i64 (SizeNum file - 1)) u pass c"
  by (simp add: getCmd_def get_range_def default_end_def)

lemma getCmd_empty_file:
  "SizeNum file = 0 \<Longrightarrow>
     getCmd file start end0 u pass c =
       ((Some (RangeOutOfBounds start (default_end file end0) 0), []), c)"
  by (auto simp: getCmd_def get_range_def check_range_def default_end_def i64_def)

text \<open>
  C10.  At the entry point \<open>getCmd\<close>, an \<open>end\<close> of 0 is replaced by
  \<open>file.SizeNum - 1\<close> before the validation:
  \<^item> \<open>getCmd\<close> with \<open>end = 0\<close> does what \<open>getCmd\<close> with \<open>end = SizeNum - 1\<close> does,
    for every \<open>start\<close>, user, password and session;
  \<^item> the request \<open>start = 0\<close>, \<open>end = 0\<close> on a file that is not empty is validated as
    the range \<open>0..SizeNum - 1\<close>, and no request with \<open>end = 0\<close> is validated as the
    range of byte 0 alone when the file has more than one byte;
  \<^item> on a file of size 0, \<open>getCmd\<close> fails the validation for every request, writes
    nothing and leaves the session untouched;
  \<^item> when the size of the file is the sum of positive declared sizes, the pieces of the
    request \<open>start = 0\<close>, \<open>end = 0\<close> are all segments, each from its first byte to its
    last;
  \<^item> and \<open>getCmd\<close> with \<open>start = 0\<close>, \<open>end = 0\<close> writes the first \<open>SizeNum\<close> bytes of
    the content of the segments, the whole file and not its first byte, whenever the
    authentication succeeds and the server answers the \<open>BODY\<close> requests with a 2xx
    status and a clean payload that decodes to as many bytes as the segment declares
    (declared sizes positive, their sum and \<open>SizeNum\<close> an \<open>int64\<close>, \<open>SizeNum\<close> positive,
    taken from the subject or from the segments).
\<close>

theorem getCmd_end_zero_is_end_of_file:
  "(- (2 ^ 63) < SizeNum f \<and> SizeNum f < 2 ^ 63 \<longrightarrow>
      default_end f 0 = SizeNum f - 1 \<and>
      getCmd f start 0 u pw c = getCmd f start (SizeNum f - 1) u pw c) \<and>
   (0 < SizeNum f \<and> SizeNum f < 2 ^ 63 \<longrightarrow>
      get_range f 0 0 = Inr (0, SizeNum f - 1)) \<and>
   (1 < SizeNum f \<and> SizeNum f < 2 ^ 63 \<longrightarrow>
      get_range f start 0 \<noteq> Inr (0, 0)) \<and>
   (SizeNum f = 0 \<longrightarrow>
      isl (get_range f start end0) \<and>
      getCmd f start end0 u pw c =
        ((Some (RangeOutOfBounds start (default_end f end0) 0), []), c)) \<and>
   ((\<forall>s\<in>set (Segments f). 0 < Bytes s) \<and> 0 < SizeNum f \<and> SizeNum f < 2 ^ 63 \<and>
    SizeNum f = sum_list (map Bytes (Segments f)) \<longrightarrow>
      plan (Segments f) 0 (default_end f 0) = map whole_piece (Segments f)) \<and>
   ((\<forall>s\<in>set (Segments f). 0 < Bytes s) \<and> sum_list (map Bytes (Segments f)) < 2 ^ 63 \<and>
    0 < SizeNum f \<and> SizeNum f < 2 ^ 63 \<and>
    list_all2 (\<lambda>s r. success_code (status_code (fst r)) \<and> clean_payload (snd r) \<and>
                 int (length (true_content (snd r))) = Bytes s) (Segments f) rs \<and>
    Auth u pw c = (None, d) \<and> healthy d \<and> inbox d = responses rs @ rest \<longrightarrow>
      fst (getCmd f 0 0 u pw c) =
        (None, take (nat (SizeNum f)) (concat (map (\<lambda>r. true_content (snd r)) rs))) \<and>
      (SizeNum f \<le> sum_list (map Bytes (Segments f)) \<longrightarrow>
         length (snd (fst (getCmd f 0 0 u pw c))) = nat (SizeNum f)))"
proof -
  have d: "default_end f 0 = SizeNum f - 1"
    if "- (2 ^ 63) < SizeNum f" "SizeNum f < 2 ^ 63"
    using that by (simp add: default_end_def i64_id)
  have r: "getCmd f start 0 u pw c = getCmd f start (SizeNum f - 1) u pw c"
    if "- (2 ^ 63) < SizeNum f" "SizeNum f < 2 ^ 63"
    using that getCmd_end_rewritten [of f "start" u pw c] by (simp add: i64_id)
  have a: "get_range f 0 0 = Inr (0, SizeNum f - 1)"
    if "0 < SizeNum f" "SizeNum f < 2 ^ 63"
    using that d by (simp add: get_range_def check_range_def)
  have b: "get_range f start 0 \<noteq> Inr (0, 0)"
    if "1 < SizeNum f" "SizeNum f < 2 ^ 63"
    using that d by (simp add: get_range_def check_range_def)
  have z: "isl (get_range f start end0)" if "SizeNum f = 0"
    using that by (auto simp: get_range_def check_range_def default_end_def i64_def)
  have z': "getCmd f start end0 u pw c =
        ((Some (RangeOutOfBounds start (default_end f end0) 0), []), c)"
    if "SizeNum f = 0"
    using that by (rule getCmd_empty_file)
  have e: "plan (Segments f) 0 (default_end f 0) = map whole_piece (Segments f)"
    if "\<forall>s\<in>set (Segments f). 0 < Bytes s" "0 < SizeNum f" "SizeNum f < 2 ^ 63"
      "SizeNum f = sum_list (map Bytes (Segments f))"
  proof -
    from that have ne: "Segments f \<noteq> []" by auto
    have "plan (Segments f) 0 (sum_list (map Bytes (Segments f)) - 1) =
          map whole_piece (Segments f)"
      using that(1) ne that(3,4) by (intro plan_whole_file) auto
    then show ?thesis using d that by simp
  qed
  have g: "fst (getCmd f 0 0 u pw c) =
        (None, take (nat (SizeNum f)) (concat (map (\<lambda>r. true_content (snd r)) rs)))"
    if "\<forall>s\<in>set (Segments f). 0 < Bytes s" "sum_list (map Bytes (Segments f)) < 2 ^ 63"
      "0 < SizeNum f" "SizeNum f < 2 ^ 63"
      "list_all2 (\<lambda>s r. success_code (status_code (fst r)) \<and> clean_payload (snd r) \<and>
                 int (length (true_content (snd r))) = Bytes s) (Segments f) rs"
      "Auth u pw c = (None, d)" "healthy d" "inbox d = responses rs @ rest"
    using that by (rule getCmd_end_zero_content)
  have l: "length (snd (fst (getCmd f 0 0 u pw c))) = nat (SizeNum f)"
    if "\<forall>s\<in>set (Segments f). 0 < Bytes s" "sum_list (map Bytes (Segments f)) < 2 ^ 63"
      "0 < SizeNum f" "SizeNum f < 2 ^ 63"
      "list_all2 (\<lambda>s r. success_code (status_code (fst r)) \<and> clean_payload (snd r) \<and>
                 int (length (true_content (snd r))) = Bytes s) (Segments f) rs"
      "Auth u pw c = (None, d)" "healthy d" "inbox d = responses rs @ rest"
      "SizeNum f \<le> sum_list (map Bytes (Segments f))"
  proof -
    have "list_all2 (\<lambda>s r. int (length (true_content (snd r))) = Bytes s) (Segments f) rs"
      by (rule list_all2_mono [OF that(5)]) simp
    then have "int (length (concat (map (\<lambda>r. true_content (snd r)) rs))) =
               sum_list (map Bytes (Segments f))"
      by (rule content_length)
    then have "nat (SizeNum f) \<le> length (concat (map (\<lambda>r. true_content (snd r)) rs))"
      using that(9) by linarith
    then show ?thesis using g [OF that(1-8)] by simp
  qed
  from d r a b z z' e g l show ?thesis by blast
qed

lemma small_example_eval:
  "\<forall>s\<in>set (Segments (populate small_raw)). 0 < Bytes s"
  "sum_list (map Bytes (Segments (populate small_raw))) = 4"
  "SizeNum (populate small_raw) = 3"
  "list_all2 (\<lambda>s r. success_code (status_code (fst r)) \<and> clean_payload (snd r) \<and>
                 int (length (true_content (snd r))) = Bytes s)
     (Segments (populate small_raw)) small_answers"
  "Auth [] [] small_session = (None, small_session)"
  "healthy small_session"
  "inbox small_session = responses small_answers @ [''205 closing'']"
  "concat (map (\<lambda>r. true_content (snd r)) small_answers) = [55, 56, 57, 58]"
  by code_simp+

text \<open>
  The theorem at the file whose subject carries the size 3 and whose segments hold
  2 + 2 bytes: \<open>getCmd\<close> with \<open>start = 0\<close>, \<open>end = 0\<close> writes the 3 bytes of the file.
\<close>

theorem getCmd_end_zero_is_end_of_file_witness:
  "SizeNum (populate small_raw) = 3 \<and>
   fst (getCmd (populate small_raw) 0 0 [] [] small_session) = (None, [55, 56, 57])"
proof -
  note t = getCmd_end_zero_is_end_of_file
    [where f = "populate small_raw" and start = 1 and u = "[]" and pw = "[]" and c = small_session
       and d = small_session and rs = small_answers and rest = "[''205 closing'']"]
  have "fst (getCmd (populate small_raw) 0 0 [] [] small_session) =
        (None, take (nat (SizeNum (populate small_raw)))
                 (concat (map (\<lambda>r. true_content (snd r)) small_answers)))"
    using t small_example_eval(1,4,5,6,7) by (simp add: small_example_eval(2,3))
  then show ?thesis
    by (simp add: small_example_eval(3,8) numeral_3_eq_3)
qed

section \<open>The assembly of a dotted line\<close>

text \<open>
  C1 fails on the code.  The segment of \<open>dotted_file\<close> holds the two bytes 4, 4; their
  encoded line \<open>..\<close> travels as \<open>...\<close>.  \<open>Body\<close> returns the line \<open>..\<close>, already
  without the dot that the transport added, and its true decoded content is \<open>[4, 4]\<close>.
  \<open>getCmd\<close>, asked for the whole file, removes one more dot and writes the single byte
  \<open>[4]\<close>.
\<close>

theorem getCmd_drops_byte_of_dotted_line:
  "fst (Body ''s1@x'' dotted_session) =
     Inr [''=ybegin line=128 size=2 name=a.bin'', ''..'', ''=yend size=2''] \<and>
   true_content [''=ybegin line=128 size=2 name=a.bin'', ''..'', ''=yend size=2''] = [4, 4] \<and>
   get_range dotted_file 0 0 = Inr (0, 1) \<and>
   fst (getCmd dotted_file 0 0 [] [] dotted_session) = (None, [4])"
  by code_simp

end
